theory Spec2Isabelle
  imports Main "HOL-Library.FSet" "HOL-Library.Product_Lexorder" "HOL-Library.AList_Mapping"
begin

section \<open>Data model of \<open>paper_tactics/entities/game.py\<close>\<close>

text \<open>
  A cell is a pair of Python integers. Python sets and frozensets are finite, so they are
  finite sets (\<open>fset\<close>). \<open>Player\<close>, \<open>GamePreferences\<close>, \<open>PlayerView\<close> and \<open>GameView\<close>
  are dataclasses declared in sibling modules; their fields are the ones \<open>game.py\<close>
  reads and writes. Field names that clash with HOL constants carry a prefix
  (\<open>id\<close> becomes \<open>player_id\<close>, \<open>game_id\<close>, \<open>gv_id\<close>; \<open>size\<close> becomes \<open>board_size\<close>).
\<close>

type_synonym cell = "int \<times> int"

record game_preferences =
  board_size :: int
  turn_count :: int
  is_visibility_applied :: bool
  is_against_bot :: bool
  trench_density_percent :: int
  is_double_base :: bool
  is_with_random_bases :: bool
  is_deathmatch :: bool

record player =
  player_id :: string
  units :: "cell fset"
  walls :: "cell fset"
  reachable :: "cell fset"
  visible_opponent :: "cell fset"
  visible_terrain :: "cell fset"
  view_data :: "(string, string) mapping"
  is_gone :: bool
  is_defeated :: bool

record game =
  game_id :: string
  preferences :: game_preferences
  turns_left :: int
  active_player :: player
  passive_player :: player
  trenches :: "cell fset"

record player_view =
  pv_units :: "cell fset"
  pv_walls :: "cell fset"
  pv_reachable :: "cell fset"
  pv_view_data :: "(string, string) mapping"
  pv_is_gone :: bool
  pv_is_defeated :: bool

record game_view =
  gv_id :: string
  gv_turns_left :: int
  my_turn :: bool
  me :: player_view
  opponent :: player_view
  gv_trenches :: "cell fset"
  gv_preferences :: game_preferences

datatype error = IllegalTurnException | AssertionError | ValueError

text \<open>
  The board geometry \<open>GamePreferences.get_adjacent_cells\<close> is not part of \<open>game.py\<close>; it is
  a parameter \<open>adj\<close> of every function that walks the board. It yields the neighbours
  of a cell in iteration order.
\<close>

type_synonym geometry = "game_preferences \<Rightarrow> cell \<Rightarrow> cell list"

text \<open>The scripted opponent \<open>GameBot.make_turn(view, turns_left)\<close> is a parameter as well.\<close>

type_synonym game_bot = "game_view \<Rightarrow> int \<Rightarrow> cell"

text \<open>
  Modelled from the spec: \<open>GamePreferences.get_symmetric_cell\<close> is declared outside
  \<open>game.py\<close>. The spec calls it the point-symmetric mirror of a cell, parameterised by
  the board size; on a board whose cells are numbered from 1 to \<open>size\<close> on both axes
  (as the bases and trenches of \<open>game.py\<close> are) that is the reflection through the centre.
\<close>

definition get_symmetric_cell :: "game_preferences \<Rightarrow> cell \<Rightarrow> cell" where
  "get_symmetric_cell prefs c = (board_size prefs - fst c + 1, board_size prefs - snd c + 1)"

text \<open>
  Modelled from the spec: \<open>Player.can_win\<close> is a property declared outside \<open>game.py\<close>;
  the spec derives it as "not defeated".
\<close>

definition can_win :: "player \<Rightarrow> bool" where
  "can_win p = (\<not> is_defeated p)"

text \<open>
  Modelled from the spec: the constructor \<open>Player(...)\<close> lives outside \<open>game.py\<close>; every
  field that is not given gets its own empty set, an empty id and cleared flags.
\<close>

definition new_player :: "string \<Rightarrow> (string, string) mapping \<Rightarrow> player" where
  "new_player i vd = \<lparr>player_id = i, units = {||}, walls = {||}, reachable = {||},
     visible_opponent = {||}, visible_terrain = {||}, view_data = vd,
     is_gone = False, is_defeated = False\<rparr>"

section \<open>Reachability: \<open>Game._rebuild_reachable_set\<close>\<close>

text \<open>
  Private methods lose their leading underscore and get the prefix \<open>p_\<close>.
  The body of the innermost \<open>for cell in get_adjacent_cells(source)\<close> loop: it updates the
  player whose reachable set is rebuilt and the local set \<open>new_sources\<close>; \<open>sources\<close> and
  the opponent are only read.
\<close>

fun visit :: "game \<Rightarrow> cell fset \<Rightarrow> player \<Rightarrow> cell \<Rightarrow> player \<times> cell fset \<Rightarrow> player \<times> cell fset" where
  "visit g sources opp c (p, new_sources) =
     (let p1 = (if is_visibility_applied (preferences g)
                then (let p0 = p\<lparr>visible_opponent := finsert c (visible_opponent p)\<rparr>
                      in if c |\<in>| trenches g
                         then p0\<lparr>visible_terrain :=
                                finsert (get_symmetric_cell (preferences g) c)
                                  (finsert c (visible_terrain p0))\<rparr>
                         else p0)
                else p)
      in if c |\<in>| sources then (p1, new_sources)
         else if c |\<in>| walls p1 then (p1, finsert c new_sources)
         else if c |\<notin>| walls opp \<and> c |\<notin>| units p1
              then (p1\<lparr>reachable := finsert c (reachable p1)\<rparr>, new_sources)
              else (p1, new_sources))"

text \<open>
  One pass of the \<open>while True\<close> loop: \<open>new_sources = set()\<close>, then the two nested
  \<open>for\<close> loops. A Python set is iterated in an arbitrary order; the model takes the sorted
  one. The body only inserts into sets and reads sets that the pass does not change, and
  every lemma about a pass below is proved for an arbitrary list of sources.
\<close>

definition scan :: "geometry \<Rightarrow> game \<Rightarrow> player \<Rightarrow> cell fset \<Rightarrow> player \<Rightarrow> player \<times> cell fset" where
  "scan adj g opp sources p =
     fold (\<lambda>source. fold (visit g sources opp) (adj (preferences g) source))
          (sorted_list_of_fset sources) (p, {||})"

lemma visit_walls: "walls (fst (visit g sources opp c s)) = walls (fst s)"
  by (cases s) (simp add: Let_def)

lemma visit_new_sources:
  "snd (visit g sources opp c s) |\<subseteq>| snd s |\<union>| (walls (fst s) |-| sources)"
  by (cases s) (auto simp: Let_def)

lemma fold_visit_walls: "walls (fst (fold (visit g sources opp) cs s)) = walls (fst s)"
  by (induction cs arbitrary: s) (simp_all add: visit_walls)

lemma fold_visit_new_sources:
  "snd (fold (visit g sources opp) cs s) |\<subseteq>| snd s |\<union>| (walls (fst s) |-| sources)"
proof (induction cs arbitrary: s)
  case Nil
  show ?case by simp
next
  case (Cons c cs)
  have "snd (fold (visit g sources opp) cs (visit g sources opp c s))
          |\<subseteq>| snd (visit g sources opp c s) |\<union>| (walls (fst s) |-| sources)"
    using Cons.IH [of "visit g sources opp c s"] by (simp add: visit_walls)
  with visit_new_sources [of g sources opp c s] show ?case by auto
qed

lemma scan_walls: "walls (fst (scan adj g opp sources p)) = walls p"
proof -
  have "walls (fst (fold (\<lambda>source. fold (visit g sources opp) (adj (preferences g) source)) xs s))
          = walls (fst s)" for xs s
    by (induction xs arbitrary: s) (simp_all add: fold_visit_walls)
  then show ?thesis by (simp add: scan_def)
qed

lemma scan_new_sources: "snd (scan adj g opp sources p) |\<subseteq>| walls p |-| sources"
proof -
  have "snd (fold (\<lambda>source. fold (visit g sources opp) (adj (preferences g) source)) xs s)
          |\<subseteq>| snd s |\<union>| (walls (fst s) |-| sources)" for xs s
  proof (induction xs arbitrary: s)
    case Nil
    show ?case by simp
  next
    case (Cons x xs)
    let ?s1 = "fold (visit g sources opp) (adj (preferences g) x) s"
    have "snd (fold (\<lambda>source. fold (visit g sources opp) (adj (preferences g) source)) xs ?s1)
            |\<subseteq>| snd ?s1 |\<union>| (walls (fst s) |-| sources)"
      using Cons.IH [of ?s1] by (simp add: fold_visit_walls)
    with fold_visit_new_sources [of g sources opp "adj (preferences g) x" s]
    show ?case by auto
  qed
  from this [of "sorted_list_of_fset sources" "(p, {||})"] show ?thesis
    by (simp add: scan_def)
qed

text \<open>
  The \<open>while True\<close> loop: a pass, \<open>break\<close> when it found no new source, otherwise
  \<open>sources.update(new_sources)\<close> and the next pass.
\<close>

function spread :: "geometry \<Rightarrow> game \<Rightarrow> player \<Rightarrow> cell fset \<Rightarrow> player \<Rightarrow> player" where
  "spread adj g opp sources p =
     (case scan adj g opp sources p of
        (p', new_sources) \<Rightarrow>
          if new_sources = {||} then p'
          else spread adj g opp (sources |\<union>| new_sources) p')"
  by pat_completeness auto

termination
proof (relation "measure (\<lambda>(adj, g, opp, sources, p). fcard (walls p |-| sources))", goal_cases)
  case 1
  show ?case by simp
next
  case prems: (2 adj g opp sources p p' new_sources)
  from prems have sc: "scan adj g opp sources p = (p', new_sources)"
    and ne: "new_sources \<noteq> {||}"
    by simp_all
  have w: "walls p' = walls p"
    using scan_walls [of adj g opp sources p] sc by simp
  have sub: "new_sources |\<subseteq>| walls p |-| sources"
    using scan_new_sources [of adj g opp sources p] sc by simp
  have "walls p |-| (sources |\<union>| new_sources) |\<subset>| walls p |-| sources"
    using sub ne by auto
  then have "fcard (walls p' |-| (sources |\<union>| new_sources)) < fcard (walls p |-| sources)"
    unfolding w by (rule pfsubset_fcard_mono)
  then show ?case
    by simp
qed

declare spread.simps [simp del]

text \<open>
  \<open>_rebuild_reachable_set(player, opponent)\<close> writes \<open>player.reachable\<close>,
  \<open>player.visible_opponent\<close> and \<open>player.visible_terrain\<close> only; the opponent, the
  preferences and the trenches are read. It is a function from the player to the rebuilt player.
\<close>

definition p_rebuild_reachable_set :: "geometry \<Rightarrow> game \<Rightarrow> player \<Rightarrow> player \<Rightarrow> player" where
  "p_rebuild_reachable_set adj g p opp =
     (let p1 = p\<lparr>reachable := {||}\<rparr>;
          p2 = (if is_visibility_applied (preferences g)
                then p1\<lparr>visible_opponent :=
                        ffilter (\<lambda>c. c |\<in>| units opp \<or> c |\<in>| walls opp) (visible_opponent p1)
                        |\<union>| ffilter (\<lambda>c. c |\<notin>| trenches g) (walls opp)\<rparr>
                else p1)
      in spread adj g opp (units p2) p2)"

section \<open>Turn resolution: \<open>Game._make_turn\<close>\<close>

text \<open>The method mutates both player objects; the model returns the pair (player, opponent).\<close>

definition p_make_turn :: "geometry \<Rightarrow> game \<Rightarrow> cell \<Rightarrow> player \<Rightarrow> player \<Rightarrow> player \<times> player" where
  "p_make_turn adj g c p opp =
     (if c |\<in>| units opp then
        (let opp1 = opp\<lparr>units := units opp |-| {|c|}\<rparr>;
             p1 = p\<lparr>walls := finsert c (walls p)\<rparr>;
             opp2 = p_rebuild_reachable_set adj g opp1 p1
         in (p_rebuild_reachable_set adj g p1 opp2, opp2))
      else if c |\<in>| trenches g then
        (let p1 = p\<lparr>walls := finsert c (walls p)\<rparr>;
             opp1 = opp\<lparr>reachable := reachable opp |-| {|c|}\<rparr>
         in (p_rebuild_reachable_set adj g p1 opp1, opp1))
      else
        (let p1 = p\<lparr>units := finsert c (units p)\<rparr>
         in (p_rebuild_reachable_set adj g p1 opp, opp)))"

section \<open>The view: \<open>Game.get_view\<close>\<close>

text \<open>
  On values: the result that \<open>_decrement_turns\<close> hands to the bot, together with the
  game it was computed from. What \<open>get_view\<close> writes, and to which objects, is modelled on a
  store of objects in the next section and related to this function there.
\<close>

definition get_view :: "geometry \<Rightarrow> game \<Rightarrow> string \<Rightarrow> (error + game_view) \<times> game" where
  "get_view adj g pid =
     (if pid \<noteq> player_id (active_player g) \<and> pid \<noteq> player_id (passive_player g)
      then (Inl AssertionError, g)
      else
        (let (me_p, opponent_p) =
               (if pid = player_id (active_player g)
                then (active_player g, passive_player g)
                else (passive_player g, active_player g));
             (opponent_units, opponent_walls, opponent_reachable, trenches_v) =
               (if is_visibility_applied (preferences g) \<and> can_win me_p \<and> can_win opponent_p
                then
                  (let ou = units opponent_p |\<inter>| visible_opponent me_p;
                       ow = walls opponent_p |\<inter>| visible_opponent me_p;
                       tr = trenches g |\<inter>| visible_terrain me_p;
                       visible_opponent_p = (new_player [] Mapping.empty)\<lparr>units := ou, walls := ow\<rparr>;
                       rebuilt = p_rebuild_reachable_set adj g visible_opponent_p me_p
                   in (ou, ow, reachable rebuilt, tr))
                else (units opponent_p, walls opponent_p, reachable opponent_p, trenches g))
         in (Inr \<lparr>gv_id = game_id g,
                  gv_turns_left = turns_left g,
                  my_turn = (me_p = active_player g),
                  me = \<lparr>pv_units = units me_p, pv_walls = walls me_p,
                         pv_reachable = reachable me_p, pv_view_data = view_data me_p,
                         pv_is_gone = is_gone me_p, pv_is_defeated = is_defeated me_p\<rparr>,
                  opponent = \<lparr>pv_units = opponent_units, pv_walls = opponent_walls,
                         pv_reachable = opponent_reachable, pv_view_data = view_data opponent_p,
                         pv_is_gone = is_gone opponent_p, pv_is_defeated = is_defeated opponent_p\<rparr>,
                  gv_trenches = trenches_v,
                  gv_preferences = preferences g\<rparr>, g)))"

section \<open>The view and the rebuild on a store of objects\<close>

text \<open>
  \<open>get_view\<close> and \<open>_rebuild_reachable_set\<close> once more, on a store of objects, where every
  statement that mutates a Python object is a write to the store. A \<open>Player\<close> object holds
  references to its five \<open>set\<close> objects; \<open>set.add\<close> and \<open>set.clear\<close> write to the set
  that a reference points to, an attribute assignment writes to the player object, and
  \<open>intersection\<close>, \<open>union\<close>, a set comprehension and \<open>Player(...)\<close> allocate new objects.
  Two references may point to the same object: nothing below assumes that the sets of the
  game's two players differ. The \<open>Game\<close> object itself (\<open>self\<close>) is in the store as well.
\<close>

type_synonym ref = nat

record player_obj =
  o_player_id :: string
  o_units :: ref
  o_walls :: ref
  o_reachable :: ref
  o_visible_opponent :: ref
  o_visible_terrain :: ref
  o_view_data :: "(string, string) mapping"
  o_is_gone :: bool
  o_is_defeated :: bool

record game_obj =
  o_game_id :: string
  o_preferences :: game_preferences
  o_turns_left :: int
  o_active_player :: ref
  o_passive_player :: ref
  o_trenches :: "cell fset"

record store =
  game_at :: game_obj
  player_at :: "ref \<Rightarrow> player_obj"
  set_at :: "ref \<Rightarrow> cell fset"
  next_ref :: ref

text \<open>Allocation takes the next unused reference.\<close>

definition new_set :: "cell fset \<Rightarrow> store \<Rightarrow> ref \<times> store" where
  "new_set v s = (next_ref s, s\<lparr>set_at := (set_at s)(next_ref s := v), next_ref := Suc (next_ref s)\<rparr>)"

definition new_player_obj :: "player_obj \<Rightarrow> store \<Rightarrow> ref \<times> store" where
  "new_player_obj v s =
     (next_ref s, s\<lparr>player_at := (player_at s)(next_ref s := v), next_ref := Suc (next_ref s)\<rparr>)"

definition set_add :: "ref \<Rightarrow> cell \<Rightarrow> store \<Rightarrow> store" where
  "set_add r c s = s\<lparr>set_at := (set_at s)(r := finsert c (set_at s r))\<rparr>"

definition set_clear :: "ref \<Rightarrow> store \<Rightarrow> store" where
  "set_clear r s = s\<lparr>set_at := (set_at s)(r := {||})\<rparr>"

text \<open>The values that a player and the game hold in a store, as the records above.\<close>

definition load_player :: "store \<Rightarrow> ref \<Rightarrow> player" where
  "load_player s r =
     (let ob = player_at s r in
      \<lparr>player_id = o_player_id ob, units = set_at s (o_units ob), walls = set_at s (o_walls ob),
       reachable = set_at s (o_reachable ob),
       visible_opponent = set_at s (o_visible_opponent ob),
       visible_terrain = set_at s (o_visible_terrain ob),
       view_data = o_view_data ob, is_gone = o_is_gone ob, is_defeated = o_is_defeated ob\<rparr>)"

definition load_game :: "store \<Rightarrow> game" where
  "load_game s =
     (let ob = game_at s in
      \<lparr>game_id = o_game_id ob, preferences = o_preferences ob, turns_left = o_turns_left ob,
       active_player = load_player s (o_active_player ob),
       passive_player = load_player s (o_passive_player ob),
       trenches = o_trenches ob\<rparr>)"

text \<open>
  Lines 149-163: the body of the innermost loop. \<open>sources\<close> and \<open>new_sources\<close> are local
  sets (\<open>sources\<close> is a copy), so they are values.
\<close>

fun visit_in_place :: "cell fset \<Rightarrow> ref \<Rightarrow> ref \<Rightarrow> cell \<Rightarrow> store \<times> cell fset \<Rightarrow> store \<times> cell fset" where
  "visit_in_place sources pr opr c (s, new_sources) =
     (let s1 = (if is_visibility_applied (o_preferences (game_at s))
                then (let s0 = set_add (o_visible_opponent (player_at s pr)) c s
                      in if c |\<in>| o_trenches (game_at s0)
                         then set_add (o_visible_terrain (player_at s0 pr))
                                (get_symmetric_cell (o_preferences (game_at s0)) c)
                                (set_add (o_visible_terrain (player_at s0 pr)) c s0)
                         else s0)
                else s)
      in if c |\<in>| sources then (s1, new_sources)
         else if c |\<in>| set_at s1 (o_walls (player_at s1 pr)) then (s1, finsert c new_sources)
         else if c |\<notin>| set_at s1 (o_walls (player_at s1 opr))
                 \<and> c |\<notin>| set_at s1 (o_units (player_at s1 pr))
              then (set_add (o_reachable (player_at s1 pr)) c s1, new_sources)
              else (s1, new_sources))"

definition scan_in_place :: "geometry \<Rightarrow> ref \<Rightarrow> cell fset \<Rightarrow> ref \<Rightarrow> store \<Rightarrow> store \<times> cell fset" where
  "scan_in_place adj opr sources pr s =
     fold (\<lambda>source. fold (visit_in_place sources pr opr)
                       (adj (o_preferences (game_at s)) source))
          (sorted_list_of_fset sources) (s, {||})"

text \<open>
  The \<open>while True\<close> loop. When the player's sets share objects the loop need not stop, so
  the result is optional: \<open>None\<close> stands for a loop that runs forever.
\<close>

partial_function (option) spread_in_place ::
  "geometry \<Rightarrow> ref \<Rightarrow> cell fset \<Rightarrow> ref \<Rightarrow> store \<Rightarrow> store option" where
  "spread_in_place adj opr sources pr s =
     (case scan_in_place adj opr sources pr s of
        (s', new_sources) \<Rightarrow>
          if new_sources = {||} then Some s'
          else spread_in_place adj opr (sources |\<union>| new_sources) pr s')"

text \<open>
  Lines 135-144: \<open>player.reachable.clear()\<close> writes to the set, the assignment to
  \<open>player.visible_opponent\<close> allocates the new set and writes the reference into the player.
\<close>

definition rebuild_in_place :: "geometry \<Rightarrow> ref \<Rightarrow> ref \<Rightarrow> store \<Rightarrow> store option" where
  "rebuild_in_place adj pr opr s =
     (let s1 = set_clear (o_reachable (player_at s pr)) s;
          s2 = (if is_visibility_applied (o_preferences (game_at s1))
                then (case new_set
                        (ffilter (\<lambda>c. c |\<in>| set_at s1 (o_units (player_at s1 opr))
                                      \<or> c |\<in>| set_at s1 (o_walls (player_at s1 opr)))
                           (set_at s1 (o_visible_opponent (player_at s1 pr)))
                         |\<union>| ffilter (\<lambda>c. c |\<notin>| o_trenches (game_at s1))
                               (set_at s1 (o_walls (player_at s1 opr)))) s1 of
                        (r, s') \<Rightarrow>
                          s'\<lparr>player_at := (player_at s')
                                (pr := (player_at s' pr)\<lparr>o_visible_opponent := r\<rparr>)\<rparr>)
                else s1)
      in spread_in_place adj opr (set_at s2 (o_units (player_at s2 pr))) pr s2)"

text \<open>
  Lines 42-49 of \<open>get_view\<close>: the two intersections allocate new sets, \<open>Player(units=...,
  walls=...)\<close> allocates the player and a new empty set for each field that is not given.
  Modelled from the spec: the constructor is declared outside \<open>game.py\<close>; the spec requires
  that each player gets independently owned sets, never a shared default instance.
\<close>

definition restricted_opponent :: "ref \<Rightarrow> ref \<Rightarrow> store \<Rightarrow> (ref \<times> ref \<times> cell fset \<times> ref) \<times> store" where
  "restricted_opponent me_r opponent_r s =
     (case new_set (set_at s (o_units (player_at s opponent_r))
              |\<inter>| set_at s (o_visible_opponent (player_at s me_r))) s of
        (opponent_units, s1) \<Rightarrow>
      case new_set (set_at s1 (o_walls (player_at s1 opponent_r))
              |\<inter>| set_at s1 (o_visible_opponent (player_at s1 me_r))) s1 of
        (opponent_walls, s2) \<Rightarrow>
      let tr = o_trenches (game_at s2) |\<inter>| set_at s2 (o_visible_terrain (player_at s2 me_r)) in
      case new_set {||} s2 of (fresh_reachable, s3) \<Rightarrow>
      case new_set {||} s3 of (fresh_visible_opponent, s4) \<Rightarrow>
      case new_set {||} s4 of (fresh_visible_terrain, s5) \<Rightarrow>
      case new_player_obj
             \<lparr>o_player_id = [], o_units = opponent_units, o_walls = opponent_walls,
              o_reachable = fresh_reachable,
              o_visible_opponent = fresh_visible_opponent,
              o_visible_terrain = fresh_visible_terrain,
              o_view_data = Mapping.empty, o_is_gone = False, o_is_defeated = False\<rparr> s5 of
        (visible_opponent_r, s6) \<Rightarrow>
      ((opponent_units, opponent_walls, tr, visible_opponent_r), s6))"

text \<open>
  Lines 58-80: the view holds the values that the sets have when \<open>get_view\<close> returns
  (\<open>cast\<close> does not copy).
\<close>

definition view_of ::
  "ref \<Rightarrow> ref \<Rightarrow> ref \<Rightarrow> ref \<Rightarrow> ref \<Rightarrow> cell fset \<Rightarrow> store \<Rightarrow> game_view" where
  "view_of me_r opponent_r opponent_units opponent_walls opponent_reachable trenches_v s =
     \<lparr>gv_id = o_game_id (game_at s),
      gv_turns_left = o_turns_left (game_at s),
      my_turn = (load_player s me_r = load_player s (o_active_player (game_at s))),
      me = \<lparr>pv_units = set_at s (o_units (player_at s me_r)),
             pv_walls = set_at s (o_walls (player_at s me_r)),
             pv_reachable = set_at s (o_reachable (player_at s me_r)),
             pv_view_data = o_view_data (player_at s me_r),
             pv_is_gone = o_is_gone (player_at s me_r),
             pv_is_defeated = o_is_defeated (player_at s me_r)\<rparr>,
      opponent = \<lparr>pv_units = set_at s opponent_units,
             pv_walls = set_at s opponent_walls,
             pv_reachable = set_at s opponent_reachable,
             pv_view_data = o_view_data (player_at s opponent_r),
             pv_is_gone = o_is_gone (player_at s opponent_r),
             pv_is_defeated = o_is_defeated (player_at s opponent_r)\<rparr>,
      gv_trenches = trenches_v,
      gv_preferences = o_preferences (game_at s)\<rparr>"

text \<open>The result is the value returned and the store after the call.\<close>

definition get_view_in_place ::
  "geometry \<Rightarrow> string \<Rightarrow> store \<Rightarrow> ((error + game_view) \<times> store) option" where
  "get_view_in_place adj pid s =
     (if pid \<noteq> o_player_id (player_at s (o_active_player (game_at s)))
         \<and> pid \<noteq> o_player_id (player_at s (o_passive_player (game_at s)))
      then Some (Inl AssertionError, s)
      else
        (let (me_r, opponent_r) =
               (if pid = o_player_id (player_at s (o_active_player (game_at s)))
                then (o_active_player (game_at s), o_passive_player (game_at s))
                else (o_passive_player (game_at s), o_active_player (game_at s)))
         in if is_visibility_applied (o_preferences (game_at s))
               \<and> can_win (load_player s me_r) \<and> can_win (load_player s opponent_r)
            then
              (case restricted_opponent me_r opponent_r s of
                 ((opponent_units, opponent_walls, tr, visible_opponent_r), s6) \<Rightarrow>
                   (case rebuild_in_place adj visible_opponent_r me_r s6 of
                      None \<Rightarrow> None
                    | Some s7 \<Rightarrow>
                        Some (Inr (view_of me_r opponent_r opponent_units opponent_walls
                                     (o_reachable (player_at s7 visible_opponent_r)) tr s7), s7)))
            else
              Some (Inr (view_of me_r opponent_r (o_units (player_at s opponent_r))
                           (o_walls (player_at s opponent_r))
                           (o_reachable (player_at s opponent_r))
                           (o_trenches (game_at s)) s), s)))"

section \<open>Rounds: \<open>Game._decrement_turns\<close> and \<open>Game.make_turn\<close>\<close>

text \<open>
  A call that raises leaves the object in the state it had reached: every stateful
  method returns the exception raised, if any, and the game state after the call.
  \<open>bot_round bot adj n\<close> is the loop \<open>for _ in range(n)\<close> of the bot's moves.
\<close>

fun bot_round :: "game_bot \<Rightarrow> geometry \<Rightarrow> nat \<Rightarrow> game \<Rightarrow> error option \<times> game" where
  "bot_round game_bot adj 0 g = (None, g)"
| "bot_round game_bot adj (Suc n) g =
     (if reachable (passive_player g) = {||}
      then (None, g\<lparr>passive_player := (passive_player g)\<lparr>is_defeated := True\<rparr>\<rparr>)
      else
        (case get_view adj g (player_id (passive_player g)) of
           (Inl e, g0) \<Rightarrow> (Some e, g0)
         | (Inr view, g0) \<Rightarrow>
             (let c = game_bot view (turns_left g0) in
              if c |\<notin>| reachable (passive_player g0) then (Some AssertionError, g0)
              else
                (case p_make_turn adj g0 c (passive_player g0) (active_player g0) of
                   (p, opp) \<Rightarrow>
                     bot_round game_bot adj n
                       (g0\<lparr>passive_player := p, active_player := opp,
                           turns_left := turns_left g0 - 1\<rparr>)))))"

text \<open>
  The blocks of \<open>_decrement_turns\<close>, in the order of the source:
  \<open>if self.preferences.is_deathmatch: self.preferences.turn_count += 1\<close> (lines 98-99 and
  111-112), \<open>self.turns_left = self.preferences.turn_count\<close> (lines 100 and 113), the swap
  of the roles (lines 115-118) and the final test for a player who cannot move
  (lines 119-120).
\<close>

definition increment_turn_count :: "game \<Rightarrow> game" where
  "increment_turn_count g =
     g\<lparr>preferences := (preferences g)\<lparr>turn_count := turn_count (preferences g) + 1\<rparr>\<rparr>"

definition escalate :: "game \<Rightarrow> game" where
  "escalate g = (if is_deathmatch (preferences g) then increment_turn_count g else g)"

definition reset_turns_left :: "game \<Rightarrow> game" where
  "reset_turns_left g = g\<lparr>turns_left := turn_count (preferences g)\<rparr>"

definition swap_players :: "game \<Rightarrow> game" where
  "swap_players g = g\<lparr>active_player := passive_player g, passive_player := active_player g\<rparr>"

definition check_defeat :: "game \<Rightarrow> game" where
  "check_defeat g =
     (if reachable (active_player g) = {||} \<and> \<not> is_defeated (passive_player g)
      then g\<lparr>active_player := (active_player g)\<lparr>is_defeated := True\<rparr>\<rparr>
      else g)"

text \<open>The body of \<open>if not self.turns_left\<close> (lines 98-118).\<close>

definition end_of_round :: "game_bot \<Rightarrow> geometry \<Rightarrow> game \<Rightarrow> error option \<times> game" where
  "end_of_round game_bot adj g =
     (let g3 = reset_turns_left (escalate g)
      in if is_against_bot (preferences g3) then
           (case bot_round game_bot adj (nat (turn_count (preferences g3))) g3 of
              (Some e, g4) \<Rightarrow> (Some e, g4)
            | (None, g4) \<Rightarrow> (None, reset_turns_left (escalate g4)))
         else (None, swap_players g3))"

definition p_decrement_turns :: "game_bot \<Rightarrow> geometry \<Rightarrow> game \<Rightarrow> error option \<times> game" where
  "p_decrement_turns game_bot adj g =
     (let g1 = g\<lparr>turns_left := turns_left g - 1\<rparr> in
      case (if turns_left g1 = 0 then end_of_round game_bot adj g1 else (None, g1)) of
        (Some e, g6) \<Rightarrow> (Some e, g6)
      | (None, g6) \<Rightarrow> (None, check_defeat g6))"

definition make_turn :: "game_bot \<Rightarrow> geometry \<Rightarrow> game \<Rightarrow> string \<Rightarrow> cell \<Rightarrow> error option \<times> game" where
  "make_turn game_bot adj g pid c =
     (if pid \<noteq> player_id (active_player g)
         \<or> c |\<notin>| reachable (active_player g)
         \<or> \<not> (can_win (active_player g) \<and> can_win (passive_player g))
      then (Some IllegalTurnException, g)
      else
        (case p_make_turn adj g c (active_player g) (passive_player g) of
           (p, opp) \<Rightarrow> p_decrement_turns game_bot adj (g\<lparr>active_player := p, passive_player := opp\<rparr>)))"

section \<open>Board generation: \<open>Game._init_players\<close>, \<open>Game._generate_trenches\<close>, \<open>Game.init\<close>\<close>

text \<open>
  The global random source is a stream of raw draws; the \<open>k\<close>-th call of \<open>randint(a, b)\<close>
  maps the \<open>k\<close>-th draw into \<open>a..b\<close>, so that every outcome of \<open>randint\<close> is the outcome
  for some stream. \<open>randint\<close> raises \<open>ValueError\<close> on an empty range.
\<close>

type_synonym random_source = "nat \<Rightarrow> int"

definition draw :: "random_source \<Rightarrow> nat \<Rightarrow> int \<Rightarrow> int \<Rightarrow> int" where
  "draw rnd k a b = a + rnd k mod (b - a + 1)"

definition randint :: "random_source \<Rightarrow> nat \<Rightarrow> int \<Rightarrow> int \<Rightarrow> error + int" where
  "randint rnd k a b = (if b < a then Inl ValueError else Inr (draw rnd k a b))"

text \<open>The result carries the number of draws consumed.\<close>

definition p_init_players :: "random_source \<Rightarrow> game \<Rightarrow> error option \<times> game \<times> nat" where
  "p_init_players rnd g =
     (let edge = board_size (preferences g);
          random = is_with_random_bases (preferences g)
      in case (if random then randint rnd 0 1 ((edge + 1) div 2) else Inr 1) of
           Inl e \<Rightarrow> (Some e, g, 0)
         | Inr first_base_y \<Rightarrow>
             (case (if random then randint rnd 1 (edge div 2 + 1) edge else Inr 1) of
                Inl e \<Rightarrow> (Some e, g, 1)
              | Inr second_base_y \<Rightarrow>
                  (let g1 = g\<lparr>active_player := (active_player g)
                               \<lparr>units := finsert (1, first_base_y) (units (active_player g))\<rparr>,
                             passive_player := (passive_player g)
                               \<lparr>units := finsert (edge, edge - first_base_y + 1)
                                           (units (passive_player g))\<rparr>\<rparr>;
                       g2 = (if is_double_base (preferences g1)
                             then g1\<lparr>active_player := (active_player g1)
                                      \<lparr>units := finsert (1, second_base_y)
                                                  (units (active_player g1))\<rparr>,
                                    passive_player := (passive_player g1)
                                      \<lparr>units := finsert (edge, edge - second_base_y + 1)
                                                  (units (passive_player g1))\<rparr>\<rparr>
                             else g1)
                   in (None, g2, if random then 2 else 0))))"

text \<open>
  The body of the two nested loops of the generator, for the zero-based \<open>x\<close> and \<open>y\<close>:
  the cells yielded so far and the index of the next draw. \<open>randint(1, 100)\<close> is only
  called when the three tests before it hold, and cannot raise.
\<close>

definition trench_candidate ::
  "random_source \<Rightarrow> game \<Rightarrow> int \<Rightarrow> int \<Rightarrow> int \<Rightarrow> int \<Rightarrow> cell list \<times> nat \<Rightarrow> cell list \<times> nat" where
  "trench_candidate rnd g sz half x y s =
     (case s of (out, k) \<Rightarrow>
        if (y < half - 1 \<or> x < half)
           \<and> (x + 1, y + 1) |\<notin>| units (active_player g)
           \<and> (x + 1, y + 1) |\<notin>| units (passive_player g)
        then (if draw rnd k 1 100 \<le> trench_density_percent (preferences g)
              then (out @ [(x + 1, y + 1), (sz - x, sz - y)], Suc k)
              else (out, Suc k))
        else (out, k))"

definition p_generate_trenches :: "random_source \<Rightarrow> nat \<Rightarrow> game \<Rightarrow> cell list \<times> nat" where
  "p_generate_trenches rnd k g =
     (if trench_density_percent (preferences g) = 0 then ([], k)
      else
        (let sz = board_size (preferences g);
             half = (sz + 1) div 2
         in fold (\<lambda>x. fold (trench_candidate rnd g sz half x) [0..half - 1]) [0..sz - 1] ([], k)))"

definition init :: "random_source \<Rightarrow> geometry \<Rightarrow> game \<Rightarrow> error option \<times> game" where
  "init rnd adj g =
     (if player_id (active_player g) = player_id (passive_player g) then (Some AssertionError, g)
      else
        (case p_init_players rnd g of
           (Some e, g1, k) \<Rightarrow> (Some e, g1)
         | (None, g1, k) \<Rightarrow>
             (let g2 = g1\<lparr>trenches := fset_of_list (fst (p_generate_trenches rnd k g1))\<rparr>;
                  g3 = g2\<lparr>active_player :=
                          p_rebuild_reachable_set adj g2 (active_player g2) (passive_player g2)\<rparr>;
                  g4 = g3\<lparr>passive_player :=
                          p_rebuild_reachable_set adj g3 (passive_player g3) (active_player g3)\<rparr>
              in (None, g4\<lparr>turns_left := turn_count (preferences g4)\<rparr>))))"

text \<open>
  A game as its creator builds it before \<open>init()\<close>: two players that own nothing yet,
  no trench, no turn left.
\<close>

definition new_game :: "string \<Rightarrow> game_preferences \<Rightarrow> player \<Rightarrow> player \<Rightarrow> game" where
  "new_game i prefs a b =
     \<lparr>game_id = i, preferences = prefs, turns_left = 0,
      active_player = a, passive_player = b, trenches = {||}\<rparr>"

text \<open>
  The states a game goes through: \<open>init()\<close> on a new game, then \<open>make_turn\<close> calls
  that return. The bot, the player id and the cell may differ from call to call.
\<close>

inductive reachable_game :: "geometry \<Rightarrow> game \<Rightarrow> bool" for adj :: geometry where
  reachable_init:
    "init rnd adj (new_game i prefs (new_player a va) (new_player b vb)) = (None, g)
     \<Longrightarrow> reachable_game adj g"
| reachable_turn:
    "reachable_game adj g \<Longrightarrow> make_turn game_bot adj g pid c = (None, g')
     \<Longrightarrow> reachable_game adj g'"

text \<open>
  A concrete geometry for the concrete instances below: the (up to eight) neighbours of a
  cell inside the board.
\<close>

definition grid_adjacent :: geometry where
  "grid_adjacent prefs c =
     filter (\<lambda>d. d \<noteq> c \<and> 1 \<le> fst d \<and> fst d \<le> board_size prefs
                 \<and> 1 \<le> snd d \<and> snd d \<le> board_size prefs)
       (concat (map (\<lambda>i. map (\<lambda>j. (fst c + i, snd c + j)) [-1, 0, 1]) [-1, 0, 1]))"

section \<open>Auxiliary notions for the properties\<close>

definition frame :: "player \<Rightarrow> player \<Rightarrow> bool" where
  "frame p q = (player_id q = player_id p \<and> units q = units p \<and> walls q = walls p
     \<and> view_data q = view_data p \<and> is_gone q = is_gone p \<and> is_defeated q = is_defeated p)"

definition pair_ok :: "cell fset \<Rightarrow> player \<Rightarrow> player \<Rightarrow> bool" where
  "pair_ok tr p q = (reachable p |\<inter>| (units p |\<union>| walls p |\<union>| walls q) = {||}
     \<and> units p |\<inter>| tr = {||})"

definition game_ok :: "game \<Rightarrow> bool" where
  "game_ok g = (pair_ok (trenches g) (active_player g) (passive_player g)
     \<and> pair_ok (trenches g) (passive_player g) (active_player g))"

definition bot_move :: "geometry \<Rightarrow> game \<Rightarrow> cell \<Rightarrow> game" where
  "bot_move adj g c =
     (case p_make_turn adj g c (passive_player g) (active_player g) of
        (p, opp) \<Rightarrow> g\<lparr>passive_player := p, active_player := opp,
                       turns_left := turns_left g - 1\<rparr>)"

definition territory :: "game \<Rightarrow> nat" where
  "territory g = fcard (units (active_player g)) + fcard (walls (active_player g))
     + fcard (units (passive_player g)) + fcard (walls (passive_player g))"

text \<open>
  Concrete games for the instances: a 2 by 2 board without trenches, where each base is
  next to the other, and a 3 by 3 board where every candidate cell became a trench.
\<close>

definition small_prefs :: game_preferences where
  "small_prefs = \<lparr>board_size = 2, turn_count = 1, is_visibility_applied = False,
     is_against_bot = False, trench_density_percent = 0, is_double_base = False,
     is_with_random_bases = False, is_deathmatch = False\<rparr>"

definition small_start :: game where
  "small_start =
     new_game ''g'' small_prefs (new_player ''a'' Mapping.empty) (new_player ''b'' Mapping.empty)"

definition small_game :: game where
  "small_game = \<lparr>game_id = ''g'', preferences = small_prefs, turns_left = 1,
     active_player = \<lparr>player_id = ''a'', units = {|(1, 1)|}, walls = {||},
        reachable = {|(1, 2), (2, 1), (2, 2)|}, visible_opponent = {||}, visible_terrain = {||},
        view_data = Mapping.empty, is_gone = False, is_defeated = False\<rparr>,
     passive_player = \<lparr>player_id = ''b'', units = {|(2, 2)|}, walls = {||},
        reachable = {|(1, 1), (1, 2), (2, 1)|}, visible_opponent = {||}, visible_terrain = {||},
        view_data = Mapping.empty, is_gone = False, is_defeated = False\<rparr>,
     trenches = {||}\<rparr>"

definition trench_prefs :: game_preferences where
  "trench_prefs = \<lparr>board_size = 3, turn_count = 1, is_visibility_applied = False,
     is_against_bot = False, trench_density_percent = 100, is_double_base = False,
     is_with_random_bases = False, is_deathmatch = False\<rparr>"

definition trench_start :: game where
  "trench_start =
     new_game ''g'' trench_prefs (new_player ''a'' Mapping.empty) (new_player ''b'' Mapping.empty)"

definition trench_game :: game where
  "trench_game = \<lparr>game_id = ''g'', preferences = trench_prefs, turns_left = 1,
     active_player = \<lparr>player_id = ''a'', units = {|(1, 1)|}, walls = {||},
        reachable = {|(1, 2), (2, 1), (2, 2)|}, visible_opponent = {||}, visible_terrain = {||},
        view_data = Mapping.empty, is_gone = False, is_defeated = False\<rparr>,
     passive_player = \<lparr>player_id = ''b'', units = {|(3, 3)|}, walls = {||},
        reachable = {|(2, 2), (2, 3), (3, 2)|}, visible_opponent = {||}, visible_terrain = {||},
        view_data = Mapping.empty, is_gone = False, is_defeated = False\<rparr>,
     trenches = {|(1, 2), (1, 3), (2, 1), (2, 2), (2, 3), (3, 1), (3, 2)|}\<rparr>"

text \<open>
  The \<open>while True\<close> loop of \<open>_rebuild_reachable_set\<close> again, with a bound on the number
  of passes: \<open>None\<close> when the bound is used up before the loop breaks.
\<close>

fun spread_fuel :: "nat \<Rightarrow> geometry \<Rightarrow> game \<Rightarrow> player \<Rightarrow> cell fset \<Rightarrow> player \<Rightarrow> player option" where
  "spread_fuel 0 adj g opp sources p = None"
| "spread_fuel (Suc n) adj g opp sources p =
     (case scan adj g opp sources p of
        (p', new_sources) \<Rightarrow>
          if new_sources = {||} then Some p'
          else spread_fuel n adj g opp (sources |\<union>| new_sources) p')"

text \<open>The state after line 92 of \<open>make_turn\<close>, before \<open>_decrement_turns\<close>.\<close>

definition human_move :: "geometry \<Rightarrow> game \<Rightarrow> cell \<Rightarrow> game" where
  "human_move adj g c =
     (case p_make_turn adj g c (active_player g) (passive_player g) of
        (p, opp) \<Rightarrow> g\<lparr>active_player := p, passive_player := opp\<rparr>)"

text \<open>A bot for the concrete instances: it takes the least cell it may move to.\<close>

definition first_reachable_bot :: game_bot where
  "first_reachable_bot view t = hd (sorted_list_of_fset (pv_reachable (me view)))"

text \<open>
  A deathmatch game against the bot on the 2 by 2 board, after \<open>init()\<close> and after the
  human's first move to (1, 2) with the bot's round that follows it.
\<close>

definition dm_prefs :: game_preferences where
  "dm_prefs = \<lparr>board_size = 2, turn_count = 1, is_visibility_applied = False,
     is_against_bot = True, trench_density_percent = 0, is_double_base = False,
     is_with_random_bases = False, is_deathmatch = True\<rparr>"

definition dm_start :: game where
  "dm_start =
     new_game ''g'' dm_prefs (new_player ''a'' Mapping.empty) (new_player ''b'' Mapping.empty)"

definition dm_game :: game where
  "dm_game = small_game\<lparr>preferences := dm_prefs\<rparr>"

definition dm_after :: game where
  "dm_after = \<lparr>game_id = ''g'', preferences = dm_prefs\<lparr>turn_count := 3\<rparr>, turns_left = 3,
     active_player = \<lparr>player_id = ''a'', units = {||}, walls = {||},
        reachable = {||}, visible_opponent = {||}, visible_terrain = {||},
        view_data = Mapping.empty, is_gone = False, is_defeated = True\<rparr>,
     passive_player = \<lparr>player_id = ''b'', units = {|(2, 2)|}, walls = {|(1, 1), (1, 2)|},
        reachable = {|(2, 1)|}, visible_opponent = {||}, visible_terrain = {||},
        view_data = Mapping.empty, is_gone = False, is_defeated = False\<rparr>,
     trenches = {||}\<rparr>"

text \<open>A player with one unit and one wall next to it, for a pass that finds a new source.\<close>

definition wall_player :: player where
  "wall_player = (new_player ''a'' Mapping.empty)\<lparr>units := {|(1, 1)|}, walls := {|(1, 2)|}\<rparr>"

text \<open>New games with the double-base flag, on fixed and on random rows.\<close>

definition double_prefs :: game_preferences where
  "double_prefs = \<lparr>board_size = 3, turn_count = 1, is_visibility_applied = False,
     is_against_bot = False, trench_density_percent = 0, is_double_base = True,
     is_with_random_bases = False, is_deathmatch = False\<rparr>"

definition double_start :: game where
  "double_start =
     new_game ''g'' double_prefs (new_player ''a'' Mapping.empty) (new_player ''b'' Mapping.empty)"

definition double_random_start :: game where
  "double_random_start =
     new_game ''g'' (double_prefs\<lparr>is_with_random_bases := True\<rparr>)
       (new_player ''a'' Mapping.empty) (new_player ''b'' Mapping.empty)"

text \<open>
  For the store: the player \<open>pr\<close> that a rebuild writes to has five different sets, none
  of them the units or the walls of the opponent \<open>opr\<close>; \<open>touched\<close> are the sets a rebuild
  may write to; \<open>sim\<close> relates a store during a rebuild to the rebuilt player on values;
  \<open>allocated\<close> says that a player and its sets exist in the store.
\<close>

definition separate :: "store \<Rightarrow> ref \<Rightarrow> ref \<Rightarrow> bool" where
  "separate s pr opr =
     (pr \<noteq> opr
      \<and> distinct [o_units (player_at s pr), o_walls (player_at s pr), o_reachable (player_at s pr),
           o_visible_opponent (player_at s pr), o_visible_terrain (player_at s pr)]
      \<and> o_walls (player_at s opr) \<notin> set [o_reachable (player_at s pr),
           o_visible_opponent (player_at s pr), o_visible_terrain (player_at s pr)]
      \<and> o_units (player_at s opr) \<notin> set [o_reachable (player_at s pr),
           o_visible_opponent (player_at s pr), o_visible_terrain (player_at s pr)])"

definition touched :: "store \<Rightarrow> ref \<Rightarrow> ref set" where
  "touched s pr = {o_reachable (player_at s pr), o_visible_opponent (player_at s pr),
     o_visible_terrain (player_at s pr)}"

definition sim :: "game \<Rightarrow> player \<Rightarrow> ref \<Rightarrow> ref \<Rightarrow> store \<Rightarrow> store \<Rightarrow> player \<Rightarrow> bool" where
  "sim g opp pr opr s0 s p =
     (preferences g = o_preferences (game_at s0) \<and> trenches g = o_trenches (game_at s0)
      \<and> separate s0 pr opr
      \<and> walls opp = set_at s0 (o_walls (player_at s0 opr))
      \<and> units opp = set_at s0 (o_units (player_at s0 opr))
      \<and> game_at s = game_at s0 \<and> player_at s = player_at s0 \<and> next_ref s = next_ref s0
      \<and> (\<forall>r. r \<notin> touched s0 pr \<longrightarrow> set_at s r = set_at s0 r)
      \<and> load_player s pr = p)"

definition allocated :: "store \<Rightarrow> ref \<Rightarrow> bool" where
  "allocated s r =
     (r < next_ref s
      \<and> o_units (player_at s r) < next_ref s \<and> o_walls (player_at s r) < next_ref s
      \<and> o_reachable (player_at s r) < next_ref s
      \<and> o_visible_opponent (player_at s r) < next_ref s
      \<and> o_visible_terrain (player_at s r) < next_ref s)"

definition game_allocated :: "store \<Rightarrow> bool" where
  "game_allocated s = (allocated s (o_active_player (game_at s))
     \<and> allocated s (o_passive_player (game_at s)))"

definition unchanged_below :: "store \<Rightarrow> store \<Rightarrow> bool" where
  "unchanged_below s s' = (game_at s' = game_at s \<and> next_ref s \<le> next_ref s'
     \<and> (\<forall>r. r < next_ref s \<longrightarrow> player_at s' r = player_at s r \<and> set_at s' r = set_at s r))"

text \<open>A store that holds a fog-of-war game on the 2 by 2 board, and the game it holds.\<close>

definition fog_prefs :: game_preferences where
  "fog_prefs = \<lparr>board_size = 2, turn_count = 1, is_visibility_applied = True,
     is_against_bot = False, trench_density_percent = 0, is_double_base = False,
     is_with_random_bases = False, is_deathmatch = False\<rparr>"

definition fog_store :: store where
  "fog_store =
     \<lparr>game_at = \<lparr>o_game_id = ''g'', o_preferences = fog_prefs, o_turns_left = 1,
                  o_active_player = 10, o_passive_player = 11, o_trenches = {||}\<rparr>,
      player_at = (\<lambda>r. if r = 10
          then \<lparr>o_player_id = ''a'', o_units = 0, o_walls = 1, o_reachable = 2,
                 o_visible_opponent = 3, o_visible_terrain = 4,
                 o_view_data = Mapping.empty, o_is_gone = False, o_is_defeated = False\<rparr>
          else \<lparr>o_player_id = ''b'', o_units = 5, o_walls = 6, o_reachable = 7,
                 o_visible_opponent = 8, o_visible_terrain = 9,
                 o_view_data = Mapping.empty, o_is_gone = False, o_is_defeated = False\<rparr>),
      set_at = (\<lambda>r. if r = 0 then {|(1, 1)|}
                     else if r = 2 \<or> r = 3 then {|(1, 2), (2, 1), (2, 2)|}
                     else if r = 5 then {|(2, 2)|}
                     else if r = 7 \<or> r = 8 then {|(1, 1), (1, 2), (2, 1)|}
                     else {||}),
      next_ref = 12\<rparr>"

definition fog_game :: game where
  "fog_game = \<lparr>game_id = ''g'', preferences = fog_prefs, turns_left = 1,
     active_player = \<lparr>player_id = ''a'', units = {|(1, 1)|}, walls = {||},
        reachable = {|(1, 2), (2, 1), (2, 2)|}, visible_opponent = {|(1, 2), (2, 1), (2, 2)|},
        visible_terrain = {||}, view_data = Mapping.empty, is_gone = False,
        is_defeated = False\<rparr>,
     passive_player = \<lparr>player_id = ''b'', units = {|(2, 2)|}, walls = {||},
        reachable = {|(1, 1), (1, 2), (2, 1)|}, visible_opponent = {|(1, 1), (1, 2), (2, 1)|},
        visible_terrain = {||}, view_data = Mapping.empty, is_gone = False,
        is_defeated = False\<rparr>,
     trenches = {||}\<rparr>"

section \<open>The rebuilt player\<close>

declare visit.simps [simp del]

lemma fold_preserves: "(\<And>x s. P s \<Longrightarrow> P (f x s)) \<Longrightarrow> P s \<Longrightarrow> P (fold f xs s)"
  by (induction xs arbitrary: s) simp_all

lemma scan_preserves:
  assumes step: "\<And>c s. P (fst s) \<Longrightarrow> P (fst (visit g sources opp c s))"
    and p: "P p"
  shows "P (fst (scan adj g opp sources p))"
proof -
  have inner: "P (fst (fold (visit g sources opp) cs s))" if "P (fst s)" for cs s
    using that by (induction cs arbitrary: s) (simp_all add: step)
  have "P (fst (fold (\<lambda>source. fold (visit g sources opp) (adj (preferences g) source)) xs s))"
    if "P (fst s)" for xs s
    using that by (induction xs arbitrary: s) (simp_all add: inner)
  then show ?thesis using p by (simp add: scan_def)
qed

lemma spread_preserves:
  assumes step: "\<And>sources c s. P (fst s) \<Longrightarrow> P (fst (visit g sources opp c s))"
    and p: "P p"
  shows "P (spread adj g opp sources p)"
  using step p
proof (induction adj g opp sources p rule: spread.induct)
  case (1 adj g opp sources p)
  obtain p' ns where sc: "scan adj g opp sources p = (p', ns)"
    by (cases "scan adj g opp sources p")
  have "P (fst (scan adj g opp sources p))"
    by (rule scan_preserves [of P g sources opp p adj]) (fact "1.prems")+
  with sc have p': "P p'" by simp
  show ?case
  proof (cases "ns = {||}")
    case True
    with sc p' show ?thesis by (simp add: spread.simps [of adj g opp sources p])
  next
    case False
    have "P (spread adj g opp (sources |\<union>| ns) p')"
      by (rule "1.IH" [OF sc [symmetric] False]) (fact "1.prems"(1), fact p')
    with sc False show ?thesis by (simp add: spread.simps [of adj g opp sources p])
  qed
qed

lemma visit_frame: "frame p (fst s) \<Longrightarrow> frame p (fst (visit g sources opp c s))"
  by (cases s) (simp add: frame_def Let_def visit.simps)

lemma visit_clear:
  assumes "frame p (fst s)" "reachable (fst s) |\<inter>| (units p |\<union>| walls p |\<union>| walls opp) = {||}"
  shows "reachable (fst (visit g sources opp c s)) |\<inter>| (units p |\<union>| walls p |\<union>| walls opp) = {||}"
  using assms by (cases s) (auto simp: frame_def Let_def visit.simps)

lemma rebuild_frame: "frame p (p_rebuild_reachable_set adj g p opp)"
  unfolding p_rebuild_reachable_set_def Let_def
  by (rule spread_preserves [where P = "frame p"]) (simp_all add: visit_frame, simp_all add: frame_def)

lemma rebuild_clear:
  "reachable (p_rebuild_reachable_set adj g p opp) |\<inter>| (units p |\<union>| walls p |\<union>| walls opp) = {||}"
proof -
  let ?P = "\<lambda>q. frame p q \<and> reachable q |\<inter>| (units p |\<union>| walls p |\<union>| walls opp) = {||}"
  have "?P (p_rebuild_reachable_set adj g p opp)"
    unfolding p_rebuild_reachable_set_def Let_def
  proof (rule spread_preserves [where P = ?P])
    fix sources c and s :: "player \<times> cell fset"
    assume "?P (fst s)"
    then show "?P (fst (visit g sources opp c s))"
      using visit_frame visit_clear by blast
  next
    show "?P (if is_visibility_applied (preferences g)
       then p\<lparr>reachable := {||}\<rparr>\<lparr>visible_opponent :=
            ffilter (\<lambda>c. c |\<in>| units opp \<or> c |\<in>| walls opp) (visible_opponent (p\<lparr>reachable := {||}\<rparr>))
            |\<union>| ffilter (\<lambda>c. c |\<notin>| trenches g) (walls opp)\<rparr>
       else p\<lparr>reachable := {||}\<rparr>)"
      by (simp add: frame_def)
  qed
  then show ?thesis by simp
qed

section \<open>Invariants of a move\<close>

lemma rebuild_units [simp]: "units (p_rebuild_reachable_set adj g p opp) = units p"
  and rebuild_walls [simp]: "walls (p_rebuild_reachable_set adj g p opp) = walls p"
  and rebuild_player_id [simp]: "player_id (p_rebuild_reachable_set adj g p opp) = player_id p"
  and rebuild_is_defeated [simp]: "is_defeated (p_rebuild_reachable_set adj g p opp) = is_defeated p"
  using rebuild_frame [of p adj g opp] by (simp_all add: frame_def)

lemma rebuild_pair_ok:
  "units p |\<inter>| tr = {||} \<Longrightarrow> pair_ok tr (p_rebuild_reachable_set adj g p opp) opp"
  using rebuild_clear [of adj g p opp] by (simp add: pair_ok_def)

lemma p_make_turn_ok:
  assumes po: "pair_ok (trenches g) p opp" and op: "pair_ok (trenches g) opp p"
    and mt: "p_make_turn adj g c p opp = (p', opp')"
  shows "pair_ok (trenches g) p' opp' \<and> pair_ok (trenches g) opp' p'"
proof -
  let ?tr = "trenches g"
  consider (capture) "c |\<in>| units opp"
    | (trench) "c |\<notin>| units opp" "c |\<in>| ?tr"
    | (expand) "c |\<notin>| units opp" "c |\<notin>| ?tr"
    by blast
  then show ?thesis
  proof cases
    case capture
    let ?opp1 = "opp\<lparr>units := units opp |-| {|c|}\<rparr>"
    let ?p1 = "p\<lparr>walls := finsert c (walls p)\<rparr>"
    from capture mt have o': "opp' = p_rebuild_reachable_set adj g ?opp1 ?p1"
      and p': "p' = p_rebuild_reachable_set adj g ?p1 opp'"
      by (auto simp: p_make_turn_def Let_def)
    have "units ?opp1 |\<inter>| ?tr = {||}" using op by (auto simp: pair_ok_def)
    then have a: "pair_ok ?tr opp' ?p1" unfolding o' by (rule rebuild_pair_ok)
    have "units ?p1 |\<inter>| ?tr = {||}" using po by (auto simp: pair_ok_def)
    then have b: "pair_ok ?tr p' opp'" unfolding p' by (rule rebuild_pair_ok)
    have "walls p' = walls ?p1" by (simp add: p')
    with a have "pair_ok ?tr opp' p'" by (simp add: pair_ok_def)
    with b show ?thesis by simp
  next
    case trench
    let ?opp1 = "opp\<lparr>reachable := reachable opp |-| {|c|}\<rparr>"
    let ?p1 = "p\<lparr>walls := finsert c (walls p)\<rparr>"
    from trench mt have o': "opp' = ?opp1"
      and p': "p' = p_rebuild_reachable_set adj g ?p1 opp'"
      by (auto simp: p_make_turn_def Let_def)
    have "units ?p1 |\<inter>| ?tr = {||}" using po by (auto simp: pair_ok_def)
    then have b: "pair_ok ?tr p' opp'" unfolding p' by (rule rebuild_pair_ok)
    have "pair_ok ?tr opp' ?p1" using op by (auto simp: pair_ok_def o')
    moreover have "walls p' = walls ?p1" by (simp add: p')
    ultimately have "pair_ok ?tr opp' p'" by (simp add: pair_ok_def)
    with b show ?thesis by simp
  next
    case expand
    let ?p1 = "p\<lparr>units := finsert c (units p)\<rparr>"
    from expand mt have o': "opp' = opp"
      and p': "p' = p_rebuild_reachable_set adj g ?p1 opp"
      by (auto simp: p_make_turn_def Let_def)
    have "units ?p1 |\<inter>| ?tr = {||}" using po expand by (auto simp: pair_ok_def)
    then have b: "pair_ok ?tr p' opp'" unfolding p' o' by (rule rebuild_pair_ok)
    have "walls p' = walls p" by (simp add: p')
    with op have "pair_ok ?tr opp' p'" by (simp add: pair_ok_def o')
    with b show ?thesis by simp
  qed
qed

lemma get_view_state: "snd (get_view adj g pid) = g"
  by (simp add: get_view_def Let_def case_prod_beta)

lemma get_view_passive:
  "\<exists>view. get_view adj g (player_id (passive_player g)) = (Inr view, g)"
  by (simp add: get_view_def Let_def case_prod_beta)

lemma bot_round_Suc:
  "bot_round game_bot adj (Suc n) g =
     (if reachable (passive_player g) = {||}
      then (None, g\<lparr>passive_player := (passive_player g)\<lparr>is_defeated := True\<rparr>\<rparr>)
      else
        (let c = game_bot (projr (fst (get_view adj g (player_id (passive_player g)))))
                   (turns_left g)
         in if c |\<notin>| reachable (passive_player g) then (Some AssertionError, g)
            else bot_round game_bot adj n (bot_move adj g c)))"
proof -
  obtain view where v: "get_view adj g (player_id (passive_player g)) = (Inr view, g)"
    using get_view_passive by blast
  show ?thesis
    by (simp add: v Let_def bot_move_def case_prod_beta)
qed

lemma bot_round_preserves:
  assumes defeat: "\<And>g. P g \<Longrightarrow> P (g\<lparr>passive_player := (passive_player g)\<lparr>is_defeated := True\<rparr>\<rparr>)"
    and move: "\<And>g c. P g \<Longrightarrow> c |\<in>| reachable (passive_player g) \<Longrightarrow> P (bot_move adj g c)"
    and g: "P g"
  shows "P (snd (bot_round game_bot adj n g))"
  using g
proof (induction n arbitrary: g)
  case 0
  then show ?case by simp
next
  case (Suc n)
  show ?case
    unfolding bot_round_Suc Let_def
    using Suc.prems by (auto intro: defeat move Suc.IH)
qed

lemma bot_move_ok: "game_ok g \<Longrightarrow> game_ok (bot_move adj g c)"
proof -
  assume ok: "game_ok g"
  obtain p opp where mt: "p_make_turn adj g c (passive_player g) (active_player g) = (p, opp)"
    by (cases "p_make_turn adj g c (passive_player g) (active_player g)")
  from ok have "pair_ok (trenches g) p opp \<and> pair_ok (trenches g) opp p"
    by (intro p_make_turn_ok [OF _ _ mt]) (simp_all add: game_ok_def)
  then show ?thesis by (simp add: bot_move_def mt game_ok_def)
qed

lemma pair_ok_defeated [simp]:
  "pair_ok tr (p\<lparr>is_defeated := b\<rparr>) q = pair_ok tr p q"
  "pair_ok tr p (q\<lparr>is_defeated := b\<rparr>) = pair_ok tr p q"
  by (simp_all add: pair_ok_def)

lemma bot_round_ok: "game_ok g \<Longrightarrow> game_ok (snd (bot_round game_bot adj n g))"
  by (rule bot_round_preserves [where P = game_ok]) (simp_all add: bot_move_ok, simp add: game_ok_def)

section \<open>Invariants of a round\<close>

lemma end_of_round_preserves:
  assumes tl: "\<And>g t. P g \<Longrightarrow> P (g\<lparr>turns_left := t\<rparr>)"
    and inc: "\<And>g. P g \<Longrightarrow> P (increment_turn_count g)"
    and br: "\<And>g n. P g \<Longrightarrow> P (snd (bot_round game_bot adj n g))"
    and sw: "\<And>g. P g \<Longrightarrow> P (swap_players g)"
    and g: "P g"
  shows "P (snd (end_of_round game_bot adj g))"
proof -
  have esc: "P (escalate h)" if "P h" for h using that by (simp add: escalate_def inc)
  have rs: "P (reset_turns_left h)" if "P h" for h using that by (simp add: reset_turns_left_def tl)
  let ?g3 = "reset_turns_left (escalate g)"
  let ?r = "bot_round game_bot adj (nat (turn_count (preferences ?g3))) ?g3"
  have g3: "P ?g3" using g by (intro rs esc)
  have g4: "P (snd ?r)" using g3 by (rule br)
  show ?thesis
  proof (cases "is_against_bot (preferences ?g3)")
    case False
    then show ?thesis using sw [OF g3] by (simp add: end_of_round_def Let_def)
  next
    case True
    show ?thesis
    proof (cases "fst ?r")
      case None
      then have "end_of_round game_bot adj g = (None, reset_turns_left (escalate (snd ?r)))"
        using True by (cases ?r) (simp add: end_of_round_def Let_def del: bot_round.simps)
      then show ?thesis using g4 by (simp add: rs esc)
    next
      case (Some e)
      then have "end_of_round game_bot adj g = (Some e, snd ?r)"
        using True by (cases ?r) (simp add: end_of_round_def Let_def del: bot_round.simps)
      then show ?thesis using g4 by simp
    qed
  qed
qed

lemma p_decrement_turns_preserves:
  assumes tl: "\<And>g t. P g \<Longrightarrow> P (g\<lparr>turns_left := t\<rparr>)"
    and inc: "\<And>g. P g \<Longrightarrow> P (increment_turn_count g)"
    and br: "\<And>g n. P g \<Longrightarrow> P (snd (bot_round game_bot adj n g))"
    and sw: "\<And>g. P g \<Longrightarrow> P (swap_players g)"
    and df: "\<And>g. P g \<Longrightarrow> P (g\<lparr>active_player := (active_player g)\<lparr>is_defeated := True\<rparr>\<rparr>)"
    and g: "P g"
  shows "P (snd (p_decrement_turns game_bot adj g))"
proof -
  define g1 where "g1 = g\<lparr>turns_left := turns_left g - 1\<rparr>"
  define r where "r = (if turns_left g1 = 0 then end_of_round game_bot adj g1 else (None, g1))"
  have cd: "P (check_defeat h)" if "P h" for h using that by (simp add: check_defeat_def df)
  have g1: "P g1" unfolding g1_def using g by (rule tl)
  have "P (snd (end_of_round game_bot adj g1))"
    using tl inc br sw g1 by (rule end_of_round_preserves)
  with g1 have r: "P (snd r)" by (simp add: r_def)
  have "p_decrement_turns game_bot adj g =
      (case r of (Some e, g6) \<Rightarrow> (Some e, g6) | (None, g6) \<Rightarrow> (None, check_defeat g6))"
    by (simp only: p_decrement_turns_def Let_def g1_def r_def)
  then have "snd (p_decrement_turns game_bot adj g) = snd r
      \<or> snd (p_decrement_turns game_bot adj g) = check_defeat (snd r)"
    by (cases r) (auto split: option.splits)
  with r cd show ?thesis by auto
qed


lemma p_make_turn_capture:
  assumes "c |\<in>| units opp" "p_make_turn adj g c p opp = (p', opp')"
  shows "units opp' = units opp |-| {|c|}" "walls opp' = walls opp"
    "units p' = units p" "walls p' = finsert c (walls p)"
  using assms by (auto simp: p_make_turn_def Let_def)

lemma p_make_turn_trench:
  assumes "c |\<notin>| units opp" "c |\<in>| trenches g" "p_make_turn adj g c p opp = (p', opp')"
  shows "units opp' = units opp" "walls opp' = walls opp"
    "units p' = units p" "walls p' = finsert c (walls p)"
  using assms by (auto simp: p_make_turn_def Let_def)

lemma p_make_turn_expand:
  assumes "c |\<notin>| units opp" "c |\<notin>| trenches g" "p_make_turn adj g c p opp = (p', opp')"
  shows "units opp' = units opp" "walls opp' = walls opp"
    "units p' = finsert c (units p)" "walls p' = walls p"
  using assms by (auto simp: p_make_turn_def Let_def)

lemma pair_ok_fresh:
  "pair_ok tr p q \<Longrightarrow> c |\<in>| reachable p \<Longrightarrow> c |\<notin>| units p \<and> c |\<notin>| walls p \<and> c |\<notin>| walls q"
  by (auto simp: pair_ok_def)

lemma fcard_remove_member: "c |\<in>| A \<Longrightarrow> fcard (A |-| {|c|}) + 1 = fcard A"
  using fcard_Suc_fminus1 [of c A] by simp

lemma p_make_turn_territory:
  assumes ok: "pair_ok tr p opp" and c: "c |\<in>| reachable p"
    and mt: "p_make_turn adj g c p opp = (p', opp')"
  shows "fcard (units p) + fcard (walls p) + fcard (units opp) + fcard (walls opp)
      \<le> fcard (units p') + fcard (walls p') + fcard (units opp') + fcard (walls opp')"
proof -
  from pair_ok_fresh [OF ok c] have nu: "c |\<notin>| units p" and nw: "c |\<notin>| walls p" by simp_all
  consider (capture) "c |\<in>| units opp"
    | (trench) "c |\<notin>| units opp" "c |\<in>| trenches g"
    | (expand) "c |\<notin>| units opp" "c |\<notin>| trenches g"
    by blast
  then show ?thesis
  proof cases
    case capture
    from p_make_turn_capture [OF capture mt] fcard_remove_member [OF capture] nw
    show ?thesis by (simp add: fcard_finsert_disjoint)
  next
    case trench
    from p_make_turn_trench [OF trench mt] nw
    show ?thesis by (simp add: fcard_finsert_disjoint)
  next
    case expand
    from p_make_turn_expand [OF expand mt] nu
    show ?thesis by (simp add: fcard_finsert_disjoint)
  qed
qed

lemma game_ok_updates [simp]:
  "game_ok (g\<lparr>turns_left := t\<rparr>) = game_ok g"
  "game_ok (increment_turn_count g) = game_ok g"
  "game_ok (swap_players g) = game_ok g"
  "game_ok (g\<lparr>active_player := (active_player g)\<lparr>is_defeated := True\<rparr>\<rparr>) = game_ok g"
  "game_ok (g\<lparr>passive_player := (passive_player g)\<lparr>is_defeated := True\<rparr>\<rparr>) = game_ok g"
  by (auto simp: game_ok_def increment_turn_count_def swap_players_def)

lemma territory_updates [simp]:
  "territory (g\<lparr>turns_left := t\<rparr>) = territory g"
  "territory (increment_turn_count g) = territory g"
  "territory (swap_players g) = territory g"
  "territory (g\<lparr>active_player := (active_player g)\<lparr>is_defeated := True\<rparr>\<rparr>) = territory g"
  "territory (g\<lparr>passive_player := (passive_player g)\<lparr>is_defeated := True\<rparr>\<rparr>) = territory g"
  by (simp_all add: territory_def increment_turn_count_def swap_players_def)

lemma bot_move_territory:
  assumes ok: "game_ok g" and c: "c |\<in>| reachable (passive_player g)"
  shows "territory g \<le> territory (bot_move adj g c)"
proof -
  obtain p opp where mt: "p_make_turn adj g c (passive_player g) (active_player g) = (p, opp)"
    by (cases "p_make_turn adj g c (passive_player g) (active_player g)")
  from ok have "pair_ok (trenches g) (passive_player g) (active_player g)"
    by (simp add: game_ok_def)
  from p_make_turn_territory [OF this c mt] show ?thesis
    by (simp add: bot_move_def mt territory_def)
qed

lemma bot_round_grows:
  assumes "game_ok g" "n \<le> territory g"
  shows "game_ok (snd (bot_round game_bot adj k g)) \<and> n \<le> territory (snd (bot_round game_bot adj k g))"
proof (rule bot_round_preserves [where P = "\<lambda>g. game_ok g \<and> n \<le> territory g"])
  fix h c
  assume "game_ok h \<and> n \<le> territory h" "c |\<in>| reachable (passive_player h)"
  then show "game_ok (bot_move adj h c) \<and> n \<le> territory (bot_move adj h c)"
    using bot_move_ok [of h adj c] bot_move_territory [of h c adj] by auto
qed (use assms in simp_all)

lemma p_decrement_turns_grows:
  assumes "game_ok g" "n \<le> territory g"
  shows "game_ok (snd (p_decrement_turns game_bot adj g))
    \<and> n \<le> territory (snd (p_decrement_turns game_bot adj g))"
proof (rule p_decrement_turns_preserves [where P = "\<lambda>g. game_ok g \<and> n \<le> territory g"])
  fix h k
  assume "game_ok h \<and> n \<le> territory h"
  then show "game_ok (snd (bot_round game_bot adj k h)) \<and> n \<le> territory (snd (bot_round game_bot adj k h))"
    using bot_round_grows by blast
qed (use assms in simp_all)

lemma make_turn_grows:
  assumes ok: "game_ok g"
  shows "game_ok (snd (make_turn game_bot adj g pid c))
    \<and> territory g \<le> territory (snd (make_turn game_bot adj g pid c))"
proof (cases "pid \<noteq> player_id (active_player g) \<or> c |\<notin>| reachable (active_player g)
         \<or> \<not> (can_win (active_player g) \<and> can_win (passive_player g))")
  case True
  then have "make_turn game_bot adj g pid c = (Some IllegalTurnException, g)"
    unfolding make_turn_def by (rule if_P)
  with ok show ?thesis by simp
next
  case False
  obtain p opp where mt: "p_make_turn adj g c (active_player g) (passive_player g) = (p, opp)"
    by (cases "p_make_turn adj g c (active_player g) (passive_player g)")
  define h where "h = g\<lparr>active_player := p, passive_player := opp\<rparr>"
  from False have eq: "make_turn game_bot adj g pid c = p_decrement_turns game_bot adj h"
    unfolding make_turn_def h_def by (simp add: mt)
  from ok have po: "pair_ok (trenches g) (active_player g) (passive_player g)"
    and op: "pair_ok (trenches g) (passive_player g) (active_player g)"
    by (simp_all add: game_ok_def)
  from p_make_turn_ok [OF po op mt] have h: "game_ok h" by (simp add: game_ok_def h_def)
  from False have "c |\<in>| reachable (active_player g)" by simp
  from p_make_turn_territory [OF po this mt] have "territory g \<le> territory h"
    by (simp add: territory_def h_def)
  with h show ?thesis unfolding eq by (rule p_decrement_turns_grows)
qed

section \<open>Invariants of board generation\<close>

lemma mirror_involution [simp]:
  "get_symmetric_cell prefs (get_symmetric_cell prefs c) = c"
  by (simp add: get_symmetric_cell_def)

lemma p_init_players_frame:
  assumes "p_init_players rnd g = (e, g1, k)"
  shows "preferences g1 = preferences g" "trenches g1 = trenches g"
    "walls (active_player g1) = walls (active_player g)"
    "walls (passive_player g1) = walls (passive_player g)"
    "player_id (active_player g1) = player_id (active_player g)"
    "player_id (passive_player g1) = player_id (passive_player g)"
  using assms
  by (auto simp: p_init_players_def Let_def split: sum.splits if_splits)

lemma p_init_players_mirror:
  assumes "p_init_players rnd (new_game i prefs (new_player a va) (new_player b vb)) = (None, g1, k)"
    and "get_symmetric_cell prefs c |\<in>| units (active_player g1) |\<union>| units (passive_player g1)"
  shows "c |\<in>| units (active_player g1) |\<union>| units (passive_player g1)"
  using assms
  by (cases c)
    (auto simp: p_init_players_def Let_def new_game_def new_player_def get_symmetric_cell_def
      split: sum.splits if_splits)

lemma trench_candidate_avoids:
  assumes closed: "\<And>c. get_symmetric_cell (preferences g) c |\<in>| U \<Longrightarrow> c |\<in>| U"
    and U: "U = units (active_player g) |\<union>| units (passive_player g)"
    and sz: "sz = board_size (preferences g)"
    and s: "\<forall>c\<in>set (fst s). c |\<notin>| U"
  shows "\<forall>c\<in>set (fst (trench_candidate rnd g sz half x y s)). c |\<notin>| U"
proof -
  have "(sz - x, sz - y) |\<notin>| U" if "(x + 1, y + 1) |\<notin>| U"
  proof
    assume "(sz - x, sz - y) |\<in>| U"
    moreover have "get_symmetric_cell (preferences g) (x + 1, y + 1) = (sz - x, sz - y)"
      by (simp add: get_symmetric_cell_def sz)
    ultimately have "(x + 1, y + 1) |\<in>| U" using closed by metis
    with that show False by simp
  qed
  then show ?thesis
    using s by (cases s) (auto simp: trench_candidate_def U)
qed

lemma trench_candidate_symmetric:
  assumes sz: "sz = board_size (preferences g)"
    and s: "\<forall>c\<in>set (fst s). get_symmetric_cell (preferences g) c \<in> set (fst s)"
  shows "\<forall>c\<in>set (fst (trench_candidate rnd g sz half x y s)).
           get_symmetric_cell (preferences g) c \<in> set (fst (trench_candidate rnd g sz half x y s))"
  using s by (cases s) (auto simp: trench_candidate_def get_symmetric_cell_def sz)

lemma p_generate_trenches_preserves:
  assumes step: "\<And>x y s. P s \<Longrightarrow>
      P (trench_candidate rnd g (board_size (preferences g))
           ((board_size (preferences g) + 1) div 2) x y s)"
    and init: "P ([], k)"
  shows "P (p_generate_trenches rnd k g)"
proof -
  have inner: "P (fold (trench_candidate rnd g (board_size (preferences g))
      ((board_size (preferences g) + 1) div 2) x) ys s)" if "P s" for x ys s
    using that by (induction ys arbitrary: s) (simp_all add: step)
  have "P (fold (\<lambda>x. fold (trench_candidate rnd g (board_size (preferences g))
      ((board_size (preferences g) + 1) div 2) x) ys) xs s)" if "P s" for xs ys s
    using that by (induction xs arbitrary: s) (simp_all add: inner)
  with init show ?thesis by (simp add: p_generate_trenches_def Let_def)
qed

lemma p_generate_trenches_symmetric:
  "c \<in> set (fst (p_generate_trenches rnd k g))
   \<Longrightarrow> get_symmetric_cell (preferences g) c \<in> set (fst (p_generate_trenches rnd k g))"
proof -
  have "\<forall>c\<in>set (fst (p_generate_trenches rnd k g)).
      get_symmetric_cell (preferences g) c \<in> set (fst (p_generate_trenches rnd k g))"
    by (rule p_generate_trenches_preserves
        [where P = "\<lambda>s. \<forall>c\<in>set (fst s). get_symmetric_cell (preferences g) c \<in> set (fst s)"])
      (simp_all add: trench_candidate_symmetric)
  then show "c \<in> set (fst (p_generate_trenches rnd k g))
   \<Longrightarrow> get_symmetric_cell (preferences g) c \<in> set (fst (p_generate_trenches rnd k g))"
    by blast
qed

lemma p_generate_trenches_avoids:
  assumes closed: "\<And>c. get_symmetric_cell (preferences g) c
        |\<in>| units (active_player g) |\<union>| units (passive_player g)
      \<Longrightarrow> c |\<in>| units (active_player g) |\<union>| units (passive_player g)"
  shows "\<forall>c\<in>set (fst (p_generate_trenches rnd k g)).
      c |\<notin>| units (active_player g) |\<union>| units (passive_player g)"
proof -
  define U where "U = units (active_player g) |\<union>| units (passive_player g)"
  have cl: "\<And>c. get_symmetric_cell (preferences g) c |\<in>| U \<Longrightarrow> c |\<in>| U"
    unfolding U_def by (rule closed)
  have "\<forall>c\<in>set (fst (p_generate_trenches rnd k g)). c |\<notin>| U"
  proof (rule p_generate_trenches_preserves [where P = "\<lambda>s. \<forall>c\<in>set (fst s). c |\<notin>| U"])
    fix x y and s :: "cell list \<times> nat"
    assume "\<forall>c\<in>set (fst s). c |\<notin>| U"
    with cl U_def refl
    show "\<forall>c\<in>set (fst (trench_candidate rnd g (board_size (preferences g))
        ((board_size (preferences g) + 1) div 2) x y s)). c |\<notin>| U"
      by (rule trench_candidate_avoids)
  next
    show "\<forall>c\<in>set (fst ([], k)). c |\<notin>| U" by simp
  qed
  then show ?thesis by (simp only: U_def)
qed

lemma init_result:
  assumes "init rnd adj g = (None, g')"
  obtains g1 k tr a b where
    "p_init_players rnd g = (None, g1, k)"
    "tr = fset_of_list (fst (p_generate_trenches rnd k g1))"
    "a = p_rebuild_reachable_set adj (g1\<lparr>trenches := tr\<rparr>) (active_player g1) (passive_player g1)"
    "b = p_rebuild_reachable_set adj (g1\<lparr>trenches := tr, active_player := a\<rparr>) (passive_player g1) a"
    "g' = g1\<lparr>trenches := tr, active_player := a, passive_player := b,
             turns_left := turn_count (preferences g1)\<rparr>"
proof -
  obtain e g1 k where ip: "p_init_players rnd g = (e, g1, k)"
    by (cases "p_init_players rnd g")
  from assms ip have e: "e = None"
    by (auto simp: init_def Let_def split: if_splits option.splits)
  from assms ip e have "g' = g1\<lparr>trenches := fset_of_list (fst (p_generate_trenches rnd k g1)),
      active_player := p_rebuild_reachable_set adj
         (g1\<lparr>trenches := fset_of_list (fst (p_generate_trenches rnd k g1))\<rparr>)
         (active_player g1) (passive_player g1),
      passive_player := p_rebuild_reachable_set adj
         (g1\<lparr>trenches := fset_of_list (fst (p_generate_trenches rnd k g1)),
             active_player := p_rebuild_reachable_set adj
               (g1\<lparr>trenches := fset_of_list (fst (p_generate_trenches rnd k g1))\<rparr>)
               (active_player g1) (passive_player g1)\<rparr>)
         (passive_player g1)
         (p_rebuild_reachable_set adj
               (g1\<lparr>trenches := fset_of_list (fst (p_generate_trenches rnd k g1))\<rparr>)
               (active_player g1) (passive_player g1)),
      turns_left := turn_count (preferences g1)\<rparr>"
    by (auto simp: init_def Let_def split: if_splits)
  with ip e that show thesis by blast
qed

lemma init_symmetric:
  assumes "init rnd adj g = (None, g')" "c |\<in>| trenches g'"
  shows "get_symmetric_cell (preferences g') c |\<in>| trenches g'"
proof -
  from assms(1) obtain g1 k tr a b where ip: "p_init_players rnd g = (None, g1, k)"
    and tr: "tr = fset_of_list (fst (p_generate_trenches rnd k g1))"
    and g': "g' = g1\<lparr>trenches := tr, active_player := a, passive_player := b,
             turns_left := turn_count (preferences g1)\<rparr>"
    by (rule init_result)
  from assms(2) have "c \<in> set (fst (p_generate_trenches rnd k g1))"
    by (simp add: g' tr fset_of_list.rep_eq)
  then have "get_symmetric_cell (preferences g1) c \<in> set (fst (p_generate_trenches rnd k g1))"
    by (rule p_generate_trenches_symmetric)
  then show ?thesis by (simp add: g' tr fset_of_list.rep_eq)
qed

lemma init_ok:
  assumes "init rnd adj (new_game i prefs (new_player a va) (new_player b vb)) = (None, g')"
  shows "game_ok g'"
proof -
  let ?g = "new_game i prefs (new_player a va) (new_player b vb)"
  from assms obtain g1 k tr pa pb where ip: "p_init_players rnd ?g = (None, g1, k)"
    and tr: "tr = fset_of_list (fst (p_generate_trenches rnd k g1))"
    and pa: "pa = p_rebuild_reachable_set adj (g1\<lparr>trenches := tr\<rparr>) (active_player g1) (passive_player g1)"
    and pb: "pb = p_rebuild_reachable_set adj (g1\<lparr>trenches := tr, active_player := pa\<rparr>) (passive_player g1) pa"
    and g': "g' = g1\<lparr>trenches := tr, active_player := pa, passive_player := pb,
             turns_left := turn_count (preferences g1)\<rparr>"
    by (rule init_result)
  have prefs: "preferences g1 = prefs"
    using p_init_players_frame(1) [OF ip] by (simp add: new_game_def)
  have "\<forall>c\<in>set (fst (p_generate_trenches rnd k g1)).
      c |\<notin>| units (active_player g1) |\<union>| units (passive_player g1)"
    by (rule p_generate_trenches_avoids) (use p_init_players_mirror [OF ip] prefs in simp)
  then have ua: "units (active_player g1) |\<inter>| tr = {||}"
    and ub: "units (passive_player g1) |\<inter>| tr = {||}"
    by (auto simp: tr fset_of_list.rep_eq)
  have 1: "pair_ok tr pa (passive_player g1)" unfolding pa using ua by (rule rebuild_pair_ok)
  have 2: "pair_ok tr pb pa" unfolding pb using ub by (rule rebuild_pair_ok)
  have "walls pb = walls (passive_player g1)" by (simp add: pb)
  with 1 have "pair_ok tr pa pb" by (simp add: pair_ok_def)
  with 2 show ?thesis by (simp add: game_ok_def g')
qed

lemma reachable_game_ok: "reachable_game adj g \<Longrightarrow> game_ok g"
proof (induction rule: reachable_game.induct)
  case (reachable_init rnd i prefs a va b vb g)
  then show ?case by (rule init_ok)
next
  case (reachable_turn g game_bot pid c g')
  from make_turn_grows [OF reachable_turn.IH, of game_bot adj pid c] reachable_turn.hyps(2)
  show ?case by simp
qed

section \<open>Errors, preferences and the bounded loop\<close>

lemma bot_round_error:
  "fst (bot_round game_bot adj n g) = None \<or> fst (bot_round game_bot adj n g) = Some AssertionError"
proof (induction n arbitrary: g)
  case 0
  show ?case by simp
next
  case (Suc n)
  show ?case unfolding bot_round_Suc Let_def using Suc.IH by auto
qed

lemma end_of_round_error:
  "fst (end_of_round game_bot adj g) = None \<or> fst (end_of_round game_bot adj g) = Some AssertionError"
proof -
  define g3 where "g3 = reset_turns_left (escalate g)"
  define r where "r = bot_round game_bot adj (nat (turn_count (preferences g3))) g3"
  have e: "end_of_round game_bot adj g =
      (if is_against_bot (preferences g3) then
         (case r of (Some e, g4) \<Rightarrow> (Some e, g4)
          | (None, g4) \<Rightarrow> (None, reset_turns_left (escalate g4)))
       else (None, swap_players g3))"
    by (simp only: end_of_round_def Let_def g3_def r_def)
  have "fst r = None \<or> fst r = Some AssertionError" unfolding r_def by (rule bot_round_error)
  then show ?thesis unfolding e by (cases r) (auto split: option.splits)
qed

lemma p_decrement_turns_error:
  "fst (p_decrement_turns game_bot adj g) = None
    \<or> fst (p_decrement_turns game_bot adj g) = Some AssertionError"
proof -
  define g1 where "g1 = g\<lparr>turns_left := turns_left g - 1\<rparr>"
  define r where "r = (if turns_left g1 = 0 then end_of_round game_bot adj g1 else (None, g1))"
  have e: "p_decrement_turns game_bot adj g =
      (case r of (Some e, g6) \<Rightarrow> (Some e, g6) | (None, g6) \<Rightarrow> (None, check_defeat g6))"
    by (simp only: p_decrement_turns_def Let_def g1_def r_def)
  have "fst r = None \<or> fst r = Some AssertionError"
    unfolding r_def using end_of_round_error [of game_bot adj g1] by simp
  then show ?thesis unfolding e by (cases r) (auto split: option.splits)
qed

lemma make_turn_legal:
  assumes "pid = player_id (active_player g)" "c |\<in>| reachable (active_player g)"
    "can_win (active_player g)" "can_win (passive_player g)"
  shows "make_turn game_bot adj g pid c = p_decrement_turns game_bot adj (human_move adj g c)"
  using assms by (simp add: make_turn_def human_move_def split: prod.splits)

lemma make_turn_illegal:
  assumes "pid \<noteq> player_id (active_player g) \<or> c |\<notin>| reachable (active_player g)
    \<or> \<not> can_win (active_player g) \<or> \<not> can_win (passive_player g)"
  shows "make_turn game_bot adj g pid c = (Some IllegalTurnException, g)"
  using assms by (auto simp: make_turn_def)

lemma bot_move_preferences [simp]: "preferences (bot_move adj g c) = preferences g"
  by (simp add: bot_move_def split: prod.splits)

lemma bot_round_preferences [simp]:
  "preferences (snd (bot_round game_bot adj n g)) = preferences g"
  by (rule bot_round_preserves [where P = "\<lambda>h. preferences h = preferences g"]) simp_all

lemma human_move_fields [simp]:
  "preferences (human_move adj g c) = preferences g"
  "turns_left (human_move adj g c) = turns_left g"
  "trenches (human_move adj g c) = trenches g"
  by (simp_all add: human_move_def split: prod.splits)

lemma spread_fuel_enough:
  "fcard (walls p |-| sources) < n
   \<Longrightarrow> spread_fuel n adj g opp sources p = Some (spread adj g opp sources p)"
proof (induction n arbitrary: sources p)
  case 0
  then show ?case by simp
next
  case (Suc n)
  obtain p' ns where sc: "scan adj g opp sources p = (p', ns)"
    by (cases "scan adj g opp sources p")
  show ?case
  proof (cases "ns = {||}")
    case True
    with sc show ?thesis by (simp add: spread.simps [of adj g opp sources p])
  next
    case False
    have w: "walls p' = walls p"
      using scan_walls [of adj g opp sources p] sc by simp
    have sub: "ns |\<subseteq>| walls p |-| sources"
      using scan_new_sources [of adj g opp sources p] sc by simp
    have "walls p |-| (sources |\<union>| ns) |\<subset>| walls p |-| sources"
      using sub False by auto
    then have "fcard (walls p' |-| (sources |\<union>| ns)) < fcard (walls p |-| sources)"
      unfolding w by (rule pfsubset_fcard_mono)
    with Suc.prems have "fcard (walls p' |-| (sources |\<union>| ns)) < n" by simp
    then have "spread_fuel n adj g opp (sources |\<union>| ns) p'
        = Some (spread adj g opp (sources |\<union>| ns) p')"
      by (rule Suc.IH)
    with sc False show ?thesis by (simp add: spread.simps [of adj g opp sources p])
  qed
qed

lemma visit_units: "units (fst (visit g sources opp c s)) = units (fst s)"
  by (cases s) (simp add: visit.simps Let_def)

lemma scan_units: "units (fst (scan adj g opp sources p)) = units p"
  by (rule scan_preserves [where P = "\<lambda>q. units q = units p"]) (simp_all add: visit_units)

section \<open>The rebuild and the view on the store\<close>

lemma set_add_simps [simp]:
  "game_at (set_add r c s) = game_at s"
  "player_at (set_add r c s) = player_at s"
  "next_ref (set_add r c s) = next_ref s"
  "set_at (set_add r c s) r' = (if r' = r then finsert c (set_at s r) else set_at s r')"
  by (simp_all add: set_add_def)

lemma sim_set_add_visible_opponent:
  assumes "sim g opp pr opr s0 s p"
  shows "sim g opp pr opr s0 (set_add (o_visible_opponent (player_at s pr)) c s)
           (p\<lparr>visible_opponent := finsert c (visible_opponent p)\<rparr>)"
  using assms by (auto simp: sim_def separate_def touched_def load_player_def Let_def)

lemma sim_set_add_visible_terrain:
  assumes "sim g opp pr opr s0 s p"
  shows "sim g opp pr opr s0 (set_add (o_visible_terrain (player_at s pr)) c s)
           (p\<lparr>visible_terrain := finsert c (visible_terrain p)\<rparr>)"
  using assms by (auto simp: sim_def separate_def touched_def load_player_def Let_def)

lemma sim_set_add_reachable:
  assumes "sim g opp pr opr s0 s p"
  shows "sim g opp pr opr s0 (set_add (o_reachable (player_at s pr)) c s)
           (p\<lparr>reachable := finsert c (reachable p)\<rparr>)"
  using assms by (auto simp: sim_def separate_def touched_def load_player_def Let_def)

lemma sim_reads:
  assumes "sim g opp pr opr s0 s p"
  shows "set_at s (o_walls (player_at s pr)) = walls p"
    "set_at s (o_units (player_at s pr)) = units p"
    "set_at s (o_walls (player_at s opr)) = walls opp"
    "set_at s (o_units (player_at s opr)) = units opp"
    "o_preferences (game_at s) = preferences g"
    "o_trenches (game_at s) = trenches g"
  using assms by (auto simp: sim_def separate_def touched_def load_player_def Let_def)

lemma visit_in_place_sim:
  assumes sm: "sim g opp pr opr s0 s p"
  shows "sim g opp pr opr s0 (fst (visit_in_place sources pr opr c (s, ns)))
           (fst (visit g sources opp c (p, ns)))
     \<and> snd (visit_in_place sources pr opr c (s, ns)) = snd (visit g sources opp c (p, ns))"
proof -
  define p0 where "p0 = p\<lparr>visible_opponent := finsert c (visible_opponent p)\<rparr>"
  define p1 where "p1 = (if is_visibility_applied (preferences g)
      then (if c |\<in>| trenches g
            then p0\<lparr>visible_terrain := finsert (get_symmetric_cell (preferences g) c)
                     (finsert c (visible_terrain p0))\<rparr>
            else p0)
      else p)"
  define t0 where "t0 = set_add (o_visible_opponent (player_at s pr)) c s"
  define t1 where "t1 = (if is_visibility_applied (o_preferences (game_at s))
      then (if c |\<in>| o_trenches (game_at t0)
            then set_add (o_visible_terrain (player_at t0 pr))
                   (get_symmetric_cell (o_preferences (game_at t0)) c)
                   (set_add (o_visible_terrain (player_at t0 pr)) c t0)
            else t0)
      else s)"
  have s0: "sim g opp pr opr s0 t0 p0"
    unfolding t0_def p0_def using sm by (rule sim_set_add_visible_opponent)
  have "sim g opp pr opr s0
      (set_add (o_visible_terrain (player_at t0 pr)) (get_symmetric_cell (o_preferences (game_at t0)) c)
         (set_add (o_visible_terrain (player_at t0 pr)) c t0))
      (p0\<lparr>visible_terrain := finsert (get_symmetric_cell (preferences g) c)
                     (finsert c (visible_terrain p0))\<rparr>)"
    using sim_set_add_visible_terrain [OF sim_set_add_visible_terrain [OF s0, of c],
        of "get_symmetric_cell (preferences g) c"]
    by (simp add: sim_reads [OF s0])
  with s0 sm have s1: "sim g opp pr opr s0 t1 p1"
    by (simp add: t1_def p1_def sim_reads [OF s0] sim_reads [OF sm])
  have vp: "visit g sources opp c (p, ns) =
      (if c |\<in>| sources then (p1, ns)
       else if c |\<in>| walls p1 then (p1, finsert c ns)
       else if c |\<notin>| walls opp \<and> c |\<notin>| units p1
            then (p1\<lparr>reachable := finsert c (reachable p1)\<rparr>, ns)
            else (p1, ns))"
    by (simp add: visit.simps Let_def p1_def p0_def)
  have vh: "visit_in_place sources pr opr c (s, ns) =
      (if c |\<in>| sources then (t1, ns)
       else if c |\<in>| set_at t1 (o_walls (player_at t1 pr)) then (t1, finsert c ns)
       else if c |\<notin>| set_at t1 (o_walls (player_at t1 opr))
               \<and> c |\<notin>| set_at t1 (o_units (player_at t1 pr))
            then (set_add (o_reachable (player_at t1 pr)) c t1, ns)
            else (t1, ns))"
    by (simp add: Let_def t1_def t0_def)
  show ?thesis
    unfolding vp vh using s1 sim_set_add_reachable [OF s1, of c]
    by (simp add: sim_reads [OF s1])
qed

lemma scan_in_place_sim:
  assumes sm: "sim g opp pr opr s0 s p"
  shows "sim g opp pr opr s0 (fst (scan_in_place adj opr sources pr s))
           (fst (scan adj g opp sources p))
     \<and> snd (scan_in_place adj opr sources pr s) = snd (scan adj g opp sources p)"
proof -
  have inner: "sim g opp pr opr s0 (fst (fold (visit_in_place sources pr opr) cs (t, ns)))
           (fst (fold (visit g sources opp) cs (q, ns)))
     \<and> snd (fold (visit_in_place sources pr opr) cs (t, ns))
         = snd (fold (visit g sources opp) cs (q, ns))"
    if "sim g opp pr opr s0 t q" for cs t q ns
    using that
  proof (induction cs arbitrary: t q ns)
    case Nil
    then show ?case by simp
  next
    case (Cons c cs)
    obtain t' ns' where a: "visit_in_place sources pr opr c (t, ns) = (t', ns')"
      by (cases "visit_in_place sources pr opr c (t, ns)")
    obtain q' ms' where b: "visit g sources opp c (q, ns) = (q', ms')"
      by (cases "visit g sources opp c (q, ns)")
    from visit_in_place_sim [OF Cons.prems, of sources c ns] a b
    have "sim g opp pr opr s0 t' q'" and "ns' = ms'" by simp_all
    with Cons.IH [of t' q' ns'] a b show ?case by simp
  qed
  have outer: "sim g opp pr opr s0
        (fst (fold (\<lambda>source. fold (visit_in_place sources pr opr) (adj (preferences g) source))
                xs (t, ns)))
        (fst (fold (\<lambda>source. fold (visit g sources opp) (adj (preferences g) source))
                xs (q, ns)))
     \<and> snd (fold (\<lambda>source. fold (visit_in_place sources pr opr) (adj (preferences g) source))
                xs (t, ns))
       = snd (fold (\<lambda>source. fold (visit g sources opp) (adj (preferences g) source))
                xs (q, ns))"
    if "sim g opp pr opr s0 t q" for xs t q ns
    using that
  proof (induction xs arbitrary: t q ns)
    case Nil
    then show ?case by simp
  next
    case (Cons x xs)
    obtain t' ns' where a: "fold (visit_in_place sources pr opr) (adj (preferences g) x) (t, ns) = (t', ns')"
      by (cases "fold (visit_in_place sources pr opr) (adj (preferences g) x) (t, ns)")
    obtain q' ms' where b: "fold (visit g sources opp) (adj (preferences g) x) (q, ns) = (q', ms')"
      by (cases "fold (visit g sources opp) (adj (preferences g) x) (q, ns)")
    from inner [OF Cons.prems, of "adj (preferences g) x" ns] a b
    have "sim g opp pr opr s0 t' q'" and "ns' = ms'" by simp_all
    with Cons.IH [of t' q' ns'] a b show ?case by simp
  qed
  show ?thesis
    using outer [OF sm, of "sorted_list_of_fset sources" "{||}"]
    by (simp add: scan_in_place_def scan_def sim_reads [OF sm])
qed

lemma spread_in_place_sim:
  assumes "sim g opp pr opr s0 s p"
  shows "\<exists>s'. spread_in_place adj opr sources pr s = Some s'
     \<and> sim g opp pr opr s0 s' (spread adj g opp sources p)"
  using assms
proof (induction adj g opp sources p arbitrary: s rule: spread.induct)
  case (1 adj g opp sources p)
  obtain p' ns where sc: "scan adj g opp sources p = (p', ns)"
    by (cases "scan adj g opp sources p")
  obtain t' ms where sh: "scan_in_place adj opr sources pr s = (t', ms)"
    by (cases "scan_in_place adj opr sources pr s")
  from scan_in_place_sim [OF "1.prems", of adj sources] sc sh
  have sm': "sim g opp pr opr s0 t' p'" and ms: "ms = ns" by simp_all
  show ?case
  proof (cases "ns = {||}")
    case True
    with sc sh ms sm' show ?thesis
      by (simp add: spread.simps [of adj g opp sources p]
          spread_in_place.simps [of adj opr sources pr s])
  next
    case False
    from "1.IH" [OF sc [symmetric] False sm']
    obtain s' where "spread_in_place adj opr (sources |\<union>| ns) pr t' = Some s'"
      and "sim g opp pr opr s0 s' (spread adj g opp (sources |\<union>| ns) p')"
      by blast
    with sc sh ms False show ?thesis
      by (simp add: spread.simps [of adj g opp sources p]
          spread_in_place.simps [of adj opr sources pr s])
  qed
qed

lemma rebuild_in_place_sim:
  assumes g: "preferences g = o_preferences (game_at s)" "trenches g = o_trenches (game_at s)"
    and opp: "walls opp = set_at s (o_walls (player_at s opr))"
      "units opp = set_at s (o_units (player_at s opr))"
    and sep: "separate s pr opr"
    and al: "allocated s pr" "allocated s opr"
  shows "\<exists>s'. rebuild_in_place adj pr opr s = Some s'
     \<and> load_player s' pr = p_rebuild_reachable_set adj g (load_player s pr) opp
     \<and> game_at s' = game_at s \<and> next_ref s \<le> next_ref s'
     \<and> (\<forall>r. r \<noteq> pr \<longrightarrow> player_at s' r = player_at s r)
     \<and> o_units (player_at s' pr) = o_units (player_at s pr)
     \<and> o_walls (player_at s' pr) = o_walls (player_at s pr)
     \<and> o_reachable (player_at s' pr) = o_reachable (player_at s pr)
     \<and> (\<forall>r. r < next_ref s \<and> r \<notin> touched s pr \<longrightarrow> set_at s' r = set_at s r)"
proof -
  define p where "p = load_player s pr"
  define s1 where "s1 = set_clear (o_reachable (player_at s pr)) s"
  define v where "v = ffilter (\<lambda>c. c |\<in>| units opp \<or> c |\<in>| walls opp) (visible_opponent p)
      |\<union>| ffilter (\<lambda>c. c |\<notin>| trenches g) (walls opp)"
  define s2 where "s2 = (if is_visibility_applied (preferences g)
      then s1\<lparr>set_at := (set_at s1)(next_ref s1 := v), next_ref := Suc (next_ref s1),
              player_at := (player_at s1)(pr := (player_at s1 pr)\<lparr>o_visible_opponent := next_ref s1\<rparr>)\<rparr>
      else s1)"
  define p2 where "p2 = (if is_visibility_applied (preferences g)
      then p\<lparr>reachable := {||}, visible_opponent := v\<rparr> else p\<lparr>reachable := {||}\<rparr>)"
  have reads: "set_at s1 (o_units (player_at s1 opr)) = units opp"
    "set_at s1 (o_walls (player_at s1 opr)) = walls opp"
    "set_at s1 (o_visible_opponent (player_at s1 pr)) = visible_opponent p"
    using sep opp by (auto simp: s1_def set_clear_def separate_def p_def load_player_def Let_def)
  have rb: "rebuild_in_place adj pr opr s
      = spread_in_place adj opr (set_at s2 (o_units (player_at s2 pr))) pr s2"
    unfolding rebuild_in_place_def Let_def s1_def [symmetric] reads
    by (simp add: s2_def new_set_def g s1_def set_clear_def v_def)
  have pb: "p_rebuild_reachable_set adj g p opp = spread adj g opp (units p2) p2"
    by (simp add: p_rebuild_reachable_set_def Let_def p2_def v_def)
  have sm: "sim g opp pr opr s2 s2 p2"
    using sep al g opp
    by (auto simp: sim_def separate_def allocated_def touched_def load_player_def Let_def
        s2_def s1_def set_clear_def p2_def p_def)
  have u: "set_at s2 (o_units (player_at s2 pr)) = units p2"
    using sim_reads(2) [OF sm] .
  from spread_in_place_sim [OF sm, of adj "units p2"]
  obtain s' where sp: "spread_in_place adj opr (units p2) pr s2 = Some s'"
    and sm': "sim g opp pr opr s2 s' (spread adj g opp (units p2) p2)"
    by blast
  have fr: "game_at s' = game_at s2" "player_at s' = player_at s2" "next_ref s' = next_ref s2"
    "\<And>r. r \<notin> touched s2 pr \<Longrightarrow> set_at s' r = set_at s2 r"
    "load_player s' pr = spread adj g opp (units p2) p2"
    using sm' by (simp_all add: sim_def)
  have t2: "r \<notin> touched s2 pr" if "r < next_ref s" "r \<notin> touched s pr" for r
    using that by (auto simp: touched_def s2_def s1_def set_clear_def)
  have s2s: "set_at s2 r = set_at s r" if "r < next_ref s" "r \<notin> touched s pr" for r
    using that by (auto simp: touched_def s2_def s1_def set_clear_def)
  have "rebuild_in_place adj pr opr s = Some s'" using rb sp u by simp
  moreover have "load_player s' pr = p_rebuild_reachable_set adj g (load_player s pr) opp"
    using fr(5) pb by (simp add: p_def)
  moreover have "game_at s' = game_at s" "next_ref s \<le> next_ref s'"
    "\<forall>r. r \<noteq> pr \<longrightarrow> player_at s' r = player_at s r"
    "o_units (player_at s' pr) = o_units (player_at s pr)"
    "o_walls (player_at s' pr) = o_walls (player_at s pr)"
    "o_reachable (player_at s' pr) = o_reachable (player_at s pr)"
    unfolding fr by (simp_all add: s2_def s1_def set_clear_def)
  moreover have "\<forall>r. r < next_ref s \<and> r \<notin> touched s pr \<longrightarrow> set_at s' r = set_at s r"
    using fr(4) t2 s2s by auto
  ultimately show ?thesis by blast
qed

lemma unchanged_below_refl: "unchanged_below s s"
  by (simp add: unchanged_below_def)

lemma unchanged_below_trans:
  "unchanged_below s s' \<Longrightarrow> unchanged_below s' s'' \<Longrightarrow> unchanged_below s s''"
  by (auto simp: unchanged_below_def)

lemma unchanged_below_load_player:
  "unchanged_below s s' \<Longrightarrow> allocated s r \<Longrightarrow> load_player s' r = load_player s r"
  by (simp add: unchanged_below_def allocated_def load_player_def Let_def)

lemma unchanged_below_allocated:
  "unchanged_below s s' \<Longrightarrow> allocated s r \<Longrightarrow> allocated s' r"
  by (auto simp: unchanged_below_def allocated_def)

lemma unchanged_below_load_game:
  assumes ub: "unchanged_below s s'" and ga: "game_allocated s"
  shows "load_game s' = load_game s"
proof -
  have g: "game_at s' = game_at s" using ub by (simp add: unchanged_below_def)
  have a: "load_player s' (o_active_player (game_at s)) = load_player s (o_active_player (game_at s))"
    using ub by (rule unchanged_below_load_player) (use ga in \<open>simp add: game_allocated_def\<close>)
  have b: "load_player s' (o_passive_player (game_at s)) = load_player s (o_passive_player (game_at s))"
    using ub by (rule unchanged_below_load_player) (use ga in \<open>simp add: game_allocated_def\<close>)
  show ?thesis by (simp add: load_game_def Let_def g a b)
qed

lemma unchanged_below_game_allocated:
  "unchanged_below s s' \<Longrightarrow> game_allocated s \<Longrightarrow> game_allocated s'"
  using unchanged_below_allocated by (auto simp: game_allocated_def unchanged_below_def)

lemma get_view_pure:
  assumes known: "\<not> (pid \<noteq> player_id (active_player g) \<and> pid \<noteq> player_id (passive_player g))"
    and me: "me_p = (if pid = player_id (active_player g) then active_player g else passive_player g)"
    and op: "op_p = (if pid = player_id (active_player g) then passive_player g else active_player g)"
    and x: "x = (if is_visibility_applied (preferences g) \<and> can_win me_p \<and> can_win op_p
        then (units op_p |\<inter>| visible_opponent me_p, walls op_p |\<inter>| visible_opponent me_p,
              reachable (p_rebuild_reachable_set adj g
                ((new_player [] Mapping.empty)\<lparr>units := units op_p |\<inter>| visible_opponent me_p,
                    walls := walls op_p |\<inter>| visible_opponent me_p\<rparr>) me_p),
              trenches g |\<inter>| visible_terrain me_p)
        else (units op_p, walls op_p, reachable op_p, trenches g))"
  shows "fst (get_view adj g pid) =
     Inr \<lparr>gv_id = game_id g, gv_turns_left = turns_left g, my_turn = (me_p = active_player g),
          me = \<lparr>pv_units = units me_p, pv_walls = walls me_p, pv_reachable = reachable me_p,
                 pv_view_data = view_data me_p, pv_is_gone = is_gone me_p,
                 pv_is_defeated = is_defeated me_p\<rparr>,
          opponent = \<lparr>pv_units = fst x, pv_walls = fst (snd x),
                 pv_reachable = fst (snd (snd x)), pv_view_data = view_data op_p,
                 pv_is_gone = is_gone op_p, pv_is_defeated = is_defeated op_p\<rparr>,
          gv_trenches = snd (snd (snd x)), gv_preferences = preferences g\<rparr>"
proof -
  have sel: "(if pid = player_id (active_player g)
                then (active_player g, passive_player g)
                else (passive_player g, active_player g)) = (me_p, op_p)"
    by (simp add: me op)
  show ?thesis
    unfolding get_view_def Let_def sel using known
    by (simp add: x case_prod_beta)
qed

lemma restricted_opponent_result:
  assumes al: "allocated s me_r" "allocated s op_r" and n: "n = next_ref s"
  shows "restricted_opponent me_r op_r s =
     ((n, Suc n,
       o_trenches (game_at s) |\<inter>| set_at s (o_visible_terrain (player_at s me_r)), n + 5),
      s\<lparr>set_at := (set_at s)
            (n := set_at s (o_units (player_at s op_r))
                    |\<inter>| set_at s (o_visible_opponent (player_at s me_r)),
             Suc n := set_at s (o_walls (player_at s op_r))
                    |\<inter>| set_at s (o_visible_opponent (player_at s me_r)),
             n + 2 := {||}, n + 3 := {||}, n + 4 := {||}),
         player_at := (player_at s)(n + 5 :=
            \<lparr>o_player_id = [], o_units = n, o_walls = Suc n, o_reachable = n + 2,
             o_visible_opponent = n + 3, o_visible_terrain = n + 4,
             o_view_data = Mapping.empty, o_is_gone = False, o_is_defeated = False\<rparr>),
         next_ref := n + 6\<rparr>)"
proof -
  have ne: "o_walls (player_at s op_r) \<noteq> next_ref s"
    "o_visible_opponent (player_at s me_r) \<noteq> next_ref s"
    "o_visible_terrain (player_at s me_r) \<noteq> next_ref s"
    "o_visible_terrain (player_at s me_r) \<noteq> Suc (next_ref s)"
    using al by (auto simp: allocated_def)
  show ?thesis
    unfolding restricted_opponent_def new_set_def new_player_obj_def Let_def n
    by (simp add: ne eval_nat_numeral)
qed

lemma view_of_loaded:
  "view_of me_r op_r ou ow orc tr s =
     \<lparr>gv_id = o_game_id (game_at s), gv_turns_left = o_turns_left (game_at s),
      my_turn = (load_player s me_r = load_player s (o_active_player (game_at s))),
      me = \<lparr>pv_units = units (load_player s me_r), pv_walls = walls (load_player s me_r),
             pv_reachable = reachable (load_player s me_r),
             pv_view_data = view_data (load_player s me_r),
             pv_is_gone = is_gone (load_player s me_r),
             pv_is_defeated = is_defeated (load_player s me_r)\<rparr>,
      opponent = \<lparr>pv_units = set_at s ou, pv_walls = set_at s ow, pv_reachable = set_at s orc,
             pv_view_data = view_data (load_player s op_r),
             pv_is_gone = is_gone (load_player s op_r),
             pv_is_defeated = is_defeated (load_player s op_r)\<rparr>,
      gv_trenches = tr, gv_preferences = o_preferences (game_at s)\<rparr>"
  by (simp add: view_of_def load_player_def Let_def)

lemma get_view_in_place_once:
  assumes ga: "game_allocated s"
  shows "\<exists>s'. get_view_in_place adj pid s = Some (fst (get_view adj (load_game s) pid), s')
     \<and> unchanged_below s s'"
proof (cases "pid \<noteq> o_player_id (player_at s (o_active_player (game_at s)))
         \<and> pid \<noteq> o_player_id (player_at s (o_passive_player (game_at s)))")
  case True
  then have "get_view_in_place adj pid s = Some (Inl AssertionError, s)"
    by (simp add: get_view_in_place_def)
  moreover from True have "fst (get_view adj (load_game s) pid) = Inl AssertionError"
    by (simp add: get_view_def load_game_def load_player_def Let_def)
  ultimately show ?thesis using unchanged_below_refl by auto
next
  case known: False
  define me_r where "me_r = (if pid = o_player_id (player_at s (o_active_player (game_at s)))
      then o_active_player (game_at s) else o_passive_player (game_at s))"
  define op_r where "op_r = (if pid = o_player_id (player_at s (o_active_player (game_at s)))
      then o_passive_player (game_at s) else o_active_player (game_at s))"
  define g where "g = load_game s"
  define me_p where "me_p = load_player s me_r"
  define op_p where "op_p = load_player s op_r"
  define vis where "vis = (is_visibility_applied (o_preferences (game_at s))
      \<and> can_win me_p \<and> can_win op_p)"
  define tp where "tp = (new_player [] Mapping.empty)\<lparr>units := units op_p |\<inter>| visible_opponent me_p,
      walls := walls op_p |\<inter>| visible_opponent me_p\<rparr>"
  define x where "x = (if is_visibility_applied (preferences g) \<and> can_win me_p \<and> can_win op_p
        then (units op_p |\<inter>| visible_opponent me_p, walls op_p |\<inter>| visible_opponent me_p,
              reachable (p_rebuild_reachable_set adj g
                ((new_player [] Mapping.empty)\<lparr>units := units op_p |\<inter>| visible_opponent me_p,
                    walls := walls op_p |\<inter>| visible_opponent me_p\<rparr>) me_p),
              trenches g |\<inter>| visible_terrain me_p)
        else (units op_p, walls op_p, reachable op_p, trenches g))"
  have al: "allocated s me_r" "allocated s op_r"
    using ga by (simp_all add: game_allocated_def me_r_def op_r_def)
  have gfields: "preferences g = o_preferences (game_at s)" "trenches g = o_trenches (game_at s)"
    "game_id g = o_game_id (game_at s)" "turns_left g = o_turns_left (game_at s)"
    "active_player g = load_player s (o_active_player (game_at s))"
    "passive_player g = load_player s (o_passive_player (game_at s))"
    by (simp_all add: g_def load_game_def Let_def)
  have ids: "player_id (active_player g) = o_player_id (player_at s (o_active_player (game_at s)))"
    "player_id (passive_player g) = o_player_id (player_at s (o_passive_player (game_at s)))"
    by (simp_all add: gfields load_player_def Let_def)
  have pure: "fst (get_view adj g pid) =
     Inr \<lparr>gv_id = game_id g, gv_turns_left = turns_left g, my_turn = (me_p = active_player g),
          me = \<lparr>pv_units = units me_p, pv_walls = walls me_p, pv_reachable = reachable me_p,
                 pv_view_data = view_data me_p, pv_is_gone = is_gone me_p,
                 pv_is_defeated = is_defeated me_p\<rparr>,
          opponent = \<lparr>pv_units = fst x, pv_walls = fst (snd x),
                 pv_reachable = fst (snd (snd x)), pv_view_data = view_data op_p,
                 pv_is_gone = is_gone op_p, pv_is_defeated = is_defeated op_p\<rparr>,
          gv_trenches = snd (snd (snd x)), gv_preferences = preferences g\<rparr>"
  proof (rule get_view_pure)
    show "\<not> (pid \<noteq> player_id (active_player g) \<and> pid \<noteq> player_id (passive_player g))"
      unfolding ids by (rule known)
    show "me_p = (if pid = player_id (active_player g) then active_player g else passive_player g)"
      unfolding ids by (simp add: me_p_def me_r_def gfields)
    show "op_p = (if pid = player_id (active_player g) then passive_player g else active_player g)"
      unfolding ids by (simp add: op_p_def op_r_def gfields)
    show "x = (if is_visibility_applied (preferences g) \<and> can_win me_p \<and> can_win op_p
        then (units op_p |\<inter>| visible_opponent me_p, walls op_p |\<inter>| visible_opponent me_p,
              reachable (p_rebuild_reachable_set adj g
                ((new_player [] Mapping.empty)\<lparr>units := units op_p |\<inter>| visible_opponent me_p,
                    walls := walls op_p |\<inter>| visible_opponent me_p\<rparr>) me_p),
              trenches g |\<inter>| visible_terrain me_p)
        else (units op_p, walls op_p, reachable op_p, trenches g))"
      by (fact x_def)
  qed
  have sel: "(if pid = o_player_id (player_at s (o_active_player (game_at s)))
                then (o_active_player (game_at s), o_passive_player (game_at s))
                else (o_passive_player (game_at s), o_active_player (game_at s))) = (me_r, op_r)"
    by (simp add: me_r_def op_r_def)
  have heap: "get_view_in_place adj pid s =
      (if vis then
         (case restricted_opponent me_r op_r s of
            ((opponent_units, opponent_walls, tr, visible_opponent_r), s6) \<Rightarrow>
              (case rebuild_in_place adj visible_opponent_r me_r s6 of
                 None \<Rightarrow> None
               | Some s7 \<Rightarrow>
                   Some (Inr (view_of me_r op_r opponent_units opponent_walls
                                (o_reachable (player_at s7 visible_opponent_r)) tr s7), s7)))
       else
         Some (Inr (view_of me_r op_r (o_units (player_at s op_r))
                      (o_walls (player_at s op_r)) (o_reachable (player_at s op_r))
                      (o_trenches (game_at s)) s), s))"
  proof -
    have "get_view_in_place adj pid s =
      (case (me_r, op_r) of (me_r, opponent_r) \<Rightarrow>
         if is_visibility_applied (o_preferences (game_at s))
               \<and> can_win (load_player s me_r) \<and> can_win (load_player s opponent_r)
            then
              (case restricted_opponent me_r opponent_r s of
                 ((opponent_units, opponent_walls, tr, visible_opponent_r), s6) \<Rightarrow>
                   (case rebuild_in_place adj visible_opponent_r me_r s6 of
                      None \<Rightarrow> None
                    | Some s7 \<Rightarrow>
                        Some (Inr (view_of me_r opponent_r opponent_units opponent_walls
                                     (o_reachable (player_at s7 visible_opponent_r)) tr s7), s7)))
            else
              Some (Inr (view_of me_r opponent_r (o_units (player_at s opponent_r))
                           (o_walls (player_at s opponent_r))
                           (o_reachable (player_at s opponent_r))
                           (o_trenches (game_at s)) s), s))"
      unfolding get_view_in_place_def Let_def sel using known by (rule if_not_P)
    then show ?thesis
      by (simp only: prod.case vis_def me_p_def op_p_def)
  qed
  show ?thesis
  proof (cases vis)
    case False
    then have "\<not> (is_visibility_applied (preferences g) \<and> can_win me_p \<and> can_win op_p)"
      unfolding vis_def gfields .
    then have x: "x = (units op_p, walls op_p, reachable op_p, trenches g)"
      unfolding x_def by (rule if_not_P)
    have "view_of me_r op_r (o_units (player_at s op_r))
                      (o_walls (player_at s op_r)) (o_reachable (player_at s op_r))
                      (o_trenches (game_at s)) s = projr (fst (get_view adj g pid))"
      unfolding pure view_of_loaded x
      by (simp add: me_p_def op_p_def gfields) (simp add: load_player_def Let_def)
    with False heap pure have "get_view_in_place adj pid s = Some (fst (get_view adj g pid), s)"
      by simp
    then show ?thesis using unchanged_below_refl by (auto simp: g_def)
  next
    case True
    define n where "n = next_ref s"
    define tr where "tr = trenches g |\<inter>| visible_terrain me_p"
    define s6 where "s6 = s\<lparr>set_at := (set_at s)
            (n := set_at s (o_units (player_at s op_r))
                    |\<inter>| set_at s (o_visible_opponent (player_at s me_r)),
             Suc n := set_at s (o_walls (player_at s op_r))
                    |\<inter>| set_at s (o_visible_opponent (player_at s me_r)),
             n + 2 := {||}, n + 3 := {||}, n + 4 := {||}),
         player_at := (player_at s)(n + 5 :=
            \<lparr>o_player_id = [], o_units = n, o_walls = Suc n, o_reachable = n + 2,
             o_visible_opponent = n + 3, o_visible_terrain = n + 4,
             o_view_data = Mapping.empty, o_is_gone = False, o_is_defeated = False\<rparr>),
         next_ref := n + 6\<rparr>"
    have ro: "restricted_opponent me_r op_r s = ((n, Suc n, tr, n + 5), s6)"
      unfolding s6_def tr_def
      using restricted_opponent_result [OF al n_def]
      by (simp add: gfields me_p_def load_player_def Let_def)
    have below: "me_r < n" "op_r < n"
      "o_units (player_at s me_r) < n" "o_walls (player_at s me_r) < n"
      using al by (simp_all add: allocated_def n_def)
    have u6: "unchanged_below s s6"
      by (auto simp: unchanged_below_def s6_def n_def)
    have lp6: "load_player s6 (n + 5) = tp"
      by (simp add: load_player_def Let_def s6_def tp_def new_player_def op_p_def me_p_def)
    have me6: "load_player s6 me_r = me_p"
      using unchanged_below_load_player [OF u6 al(1)] by (simp add: me_p_def)
    have "\<exists>s7. rebuild_in_place adj (n + 5) me_r s6 = Some s7
       \<and> load_player s7 (n + 5) = p_rebuild_reachable_set adj g (load_player s6 (n + 5)) me_p
       \<and> game_at s7 = game_at s6 \<and> next_ref s6 \<le> next_ref s7
       \<and> (\<forall>r. r \<noteq> n + 5 \<longrightarrow> player_at s7 r = player_at s6 r)
       \<and> o_units (player_at s7 (n + 5)) = o_units (player_at s6 (n + 5))
       \<and> o_walls (player_at s7 (n + 5)) = o_walls (player_at s6 (n + 5))
       \<and> o_reachable (player_at s7 (n + 5)) = o_reachable (player_at s6 (n + 5))
       \<and> (\<forall>r. r < next_ref s6 \<and> r \<notin> touched s6 (n + 5) \<longrightarrow> set_at s7 r = set_at s6 r)"
    proof (rule rebuild_in_place_sim)
      show "preferences g = o_preferences (game_at s6)" "trenches g = o_trenches (game_at s6)"
        by (simp_all add: gfields s6_def)
      show "walls me_p = set_at s6 (o_walls (player_at s6 me_r))"
        "units me_p = set_at s6 (o_units (player_at s6 me_r))"
        using me6 [symmetric] by (simp_all add: load_player_def Let_def)
      show "separate s6 (n + 5) me_r"
        using below by (auto simp: separate_def s6_def)
      show "allocated s6 (n + 5)" by (simp add: allocated_def s6_def)
      show "allocated s6 me_r" using unchanged_below_allocated [OF u6 al(1)] .
    qed
    then obtain s7 where rb: "rebuild_in_place adj (n + 5) me_r s6 = Some s7"
      and lp7: "load_player s7 (n + 5) = p_rebuild_reachable_set adj g tp me_p"
      and g7: "game_at s7 = game_at s6" and n7: "next_ref s6 \<le> next_ref s7"
      and pl7: "\<And>r. r \<noteq> n + 5 \<Longrightarrow> player_at s7 r = player_at s6 r"
      and refs7: "o_reachable (player_at s7 (n + 5)) = n + 2"
      and st7: "\<And>r. r < next_ref s6 \<Longrightarrow> r \<notin> touched s6 (n + 5) \<Longrightarrow> set_at s7 r = set_at s6 r"
      unfolding lp6 by (auto simp: s6_def)
    have u7: "unchanged_below s s7"
      unfolding unchanged_below_def
    proof (intro conjI allI impI)
      show "game_at s7 = game_at s" using g7 by (simp add: s6_def)
      show "next_ref s \<le> next_ref s7" using n7 by (simp add: s6_def n_def)
      fix r assume r: "r < next_ref s"
      then show "player_at s7 r = player_at s r"
        using pl7 [of r] by (simp add: s6_def n_def)
      from r show "set_at s7 r = set_at s r"
        using st7 [of r] by (simp add: s6_def n_def touched_def)
    qed
    have me7: "load_player s7 me_r = me_p" "load_player s7 op_r = op_p"
      "load_player s7 (o_active_player (game_at s)) = active_player g"
      using unchanged_below_load_player [OF u7] al ga
      by (simp_all add: me_p_def op_p_def gfields game_allocated_def)
    have sets7: "set_at s7 n = units op_p |\<inter>| visible_opponent me_p"
      "set_at s7 (Suc n) = walls op_p |\<inter>| visible_opponent me_p"
      using st7 [of n] st7 [of "Suc n"]
      by (simp_all add: s6_def touched_def op_p_def me_p_def load_player_def Let_def)
    have "set_at s7 (n + 2) = reachable (load_player s7 (n + 5))"
      using refs7 by (simp add: load_player_def Let_def)
    then have reach7: "set_at s7 (n + 2) = reachable (p_rebuild_reachable_set adj g tp me_p)"
      unfolding lp7 .
    have g7s: "game_at s7 = game_at s" using g7 by (simp add: s6_def)
    from True have "is_visibility_applied (preferences g) \<and> can_win me_p \<and> can_win op_p"
      unfolding vis_def gfields .
    then have x: "x = (units op_p |\<inter>| visible_opponent me_p,
        walls op_p |\<inter>| visible_opponent me_p,
        reachable (p_rebuild_reachable_set adj g tp me_p), tr)"
      unfolding x_def tp_def tr_def by (rule if_P)
    have "view_of me_r op_r n (Suc n) (n + 2) tr s7 = projr (fst (get_view adj g pid))"
      unfolding pure view_of_loaded x
      using reach7 by (simp add: me7 sets7 g7s gfields)
    with True heap ro rb refs7 pure
    have "get_view_in_place adj pid s = Some (fst (get_view adj g pid), s7)"
      by simp
    with u7 show ?thesis by (auto simp: g_def)
  qed
qed

section \<open>The concrete games\<close>

lemma small_init: "init (\<lambda>k. 0) grid_adjacent small_start = (None, small_game)"
  by code_simp

lemma small_reachable: "reachable_game grid_adjacent small_game"
  using small_init unfolding small_start_def by (rule reachable_init)

lemma trench_init: "init (\<lambda>k. 0) grid_adjacent trench_start = (None, trench_game)"
  by code_simp

lemma trench_reachable: "reachable_game grid_adjacent trench_game"
  using trench_init unfolding trench_start_def by (rule reachable_init)

lemma small_facts:
  "player_id (active_player small_game) = ''a''"
  "(2, 2) |\<in>| reachable (active_player small_game)"
  "(1, 2) |\<in>| reachable (active_player small_game)"
  "(2, 2) |\<in>| units (passive_player small_game)"
  "(1, 2) |\<notin>| units (passive_player small_game)"
  "(1, 2) |\<notin>| trenches small_game"
  "units (passive_player small_game) = {|(2, 2)|}"
  "units (active_player small_game) = {|(1, 1)|}"
  "walls (active_player small_game) = {||}"
  by (simp_all add: small_game_def)

lemma trench_facts:
  "(1, 2) |\<notin>| units (passive_player trench_game)"
  "(1, 2) |\<in>| trenches trench_game"
  "walls (active_player trench_game) = {||}"
  "reachable (passive_player trench_game) = {|(2, 2), (2, 3), (3, 2)|}"
  by (simp_all add: trench_game_def)

lemma dm_init: "init (\<lambda>k. 0) grid_adjacent dm_start = (None, dm_game)"
  by code_simp

lemma dm_turn: "make_turn first_reachable_bot grid_adjacent dm_game ''a'' (1, 2) = (None, dm_after)"
  by code_simp

lemma dm_facts:
  "is_deathmatch (preferences dm_game)" "is_against_bot (preferences dm_game)"
  "turns_left dm_game - 1 = 0" "turn_count (preferences dm_game) = 1"
  by (simp_all add: dm_game_def dm_prefs_def small_game_def)

lemma wall_scan:
  "snd (scan grid_adjacent small_game (passive_player small_game) {|(1, 1)|} wall_player) = {|(1, 2)|}"
  by code_simp

lemma fog_allocated: "game_allocated fog_store"
  by (simp add: game_allocated_def allocated_def fog_store_def)

lemma fog_load: "load_game fog_store = fog_game"
  by (simp add: load_game_def load_player_def fog_store_def fog_game_def Let_def)

lemma fog_view:
  "pv_units (opponent (projr (fst (get_view grid_adjacent fog_game ''a'')))) = {|(2, 2)|}
   \<and> pv_reachable (opponent (projr (fst (get_view grid_adjacent fog_game ''a''))))
       = {|(1, 1), (1, 2), (2, 1)|}"
  by code_simp

text \<open>
  The writes of the rebuild are real: applied to a player of the game, the loop body adds
  the cell it visits to that player's own \<open>visible_opponent\<close> set.
\<close>

lemma visit_in_place_writes:
  "set_at (fst (visit_in_place {||} 10 11 (5, 5) (fog_store, {||}))) 3
     = finsert (5, 5) (set_at fog_store 3)
   \<and> (5, 5) |\<notin>| set_at fog_store 3"
  by (simp add: fog_store_def fog_prefs_def set_add_def Let_def)

text \<open>
  On a board of odd size the two ranges of \<open>randint\<close> in \<open>_init_players\<close> share the middle
  row: draws that fall on it give one base per player as well.
\<close>

lemma double_base_random_rows_may_coincide:
  "fst (init (\<lambda>k. if k = 0 then 1 else 0) grid_adjacent double_random_start) = None
   \<and> units (active_player
        (snd (init (\<lambda>k. if k = 0 then 1 else 0) grid_adjacent double_random_start))) = {|(1, 2)|}"
  by code_simp

section \<open>The claims\<close>

text \<open>
  C1. In every game state reached by \<open>init()\<close> and then any sequence of \<open>make_turn\<close>
  calls that return, the reachable set of each player contains no cell of that player's
  units and no cell of the other player's walls.
\<close>

theorem reachable_avoids_units_and_opponent_walls:
  assumes "reachable_game adj g"
  shows "reachable (active_player g) |\<inter>| units (active_player g) = {||}
    \<and> reachable (active_player g) |\<inter>| walls (passive_player g) = {||}
    \<and> reachable (passive_player g) |\<inter>| units (passive_player g) = {||}
    \<and> reachable (passive_player g) |\<inter>| walls (active_player g) = {||}"
  using reachable_game_ok [OF assms] by (auto simp: game_ok_def pair_ok_def)

theorem reachable_avoids_units_and_opponent_walls_witness:
  "reachable_game grid_adjacent small_game
    \<and> reachable (active_player small_game) = {|(1, 2), (2, 1), (2, 2)|}
    \<and> reachable (active_player small_game) |\<inter>| units (active_player small_game) = {||}
    \<and> reachable (active_player small_game) |\<inter>| walls (passive_player small_game) = {||}
    \<and> reachable (passive_player small_game) |\<inter>| units (passive_player small_game) = {||}
    \<and> reachable (passive_player small_game) |\<inter>| walls (active_player small_game) = {||}"
  using reachable_avoids_units_and_opponent_walls [OF small_reachable] small_reachable
  by (simp add: small_game_def)

text \<open>
  C2. \<open>make_turn(player_id, cell)\<close> raises \<open>IllegalTurnException\<close> exactly when the id is not
  the active player's, or the cell is not in the active player's reachable set, or one of
  the two players cannot win any more; and when it raises, the game state is the one
  before the call.
\<close>

theorem make_turn_raises_iff_illegal_and_atomic:
  "(fst (make_turn game_bot adj g pid c) = Some IllegalTurnException)
     = (pid \<noteq> player_id (active_player g) \<or> c |\<notin>| reachable (active_player g)
        \<or> \<not> can_win (active_player g) \<or> \<not> can_win (passive_player g))
   \<and> (fst (make_turn game_bot adj g pid c) = Some IllegalTurnException
        \<longrightarrow> snd (make_turn game_bot adj g pid c) = g)"
proof (cases "pid \<noteq> player_id (active_player g) \<or> c |\<notin>| reachable (active_player g)
    \<or> \<not> can_win (active_player g) \<or> \<not> can_win (passive_player g)")
  case True
  then show ?thesis by (simp add: make_turn_illegal)
next
  case False
  then have "make_turn game_bot adj g pid c = p_decrement_turns game_bot adj (human_move adj g c)"
    by (intro make_turn_legal) simp_all
  with p_decrement_turns_error [of game_bot adj "human_move adj g c"] False
  show ?thesis by auto
qed

theorem make_turn_raises_iff_illegal_and_atomic_witness:
  "fst (make_turn first_reachable_bot grid_adjacent small_game ''b'' (1, 2))
      = Some IllegalTurnException
   \<and> snd (make_turn first_reachable_bot grid_adjacent small_game ''b'' (1, 2)) = small_game
   \<and> fst (make_turn first_reachable_bot grid_adjacent small_game ''a'' (1, 2))
      \<noteq> Some IllegalTurnException"
  using make_turn_raises_iff_illegal_and_atomic
      [where game_bot = first_reachable_bot and adj = grid_adjacent and g = small_game
        and pid = "''b''" and c = "(1, 2)"]
    make_turn_raises_iff_illegal_and_atomic
      [where game_bot = first_reachable_bot and adj = grid_adjacent and g = small_game
        and pid = "''a''" and c = "(1, 2)"]
  by (simp add: small_facts) (simp add: small_game_def can_win_def)

text \<open>
  C3. \<open>_make_turn\<close> classifies the cell in the order capture, trench, expand, each case
  excluding the later ones. Capture: the cell leaves the opponent's units, joins the
  mover's walls, and the opponent is rebuilt. Trench: the cell joins the mover's walls and
  is only discarded from the opponent's reachable set, the opponent is not rebuilt.
  Expand: the cell joins the mover's units. In every case the mover is rebuilt last.
\<close>

theorem move_resolution_order:
  assumes "p_make_turn adj g c p opp = (p', opp')"
  shows "(c |\<in>| units opp \<longrightarrow>
            units opp' = units opp |-| {|c|} \<and> walls opp' = walls opp
            \<and> walls p' = finsert c (walls p) \<and> units p' = units p
            \<and> opp' = p_rebuild_reachable_set adj g (opp\<lparr>units := units opp |-| {|c|}\<rparr>)
                       (p\<lparr>walls := finsert c (walls p)\<rparr>)
            \<and> p' = p_rebuild_reachable_set adj g (p\<lparr>walls := finsert c (walls p)\<rparr>) opp')
    \<and> (c |\<notin>| units opp \<and> c |\<in>| trenches g \<longrightarrow>
            walls p' = finsert c (walls p) \<and> units p' = units p
            \<and> opp' = opp\<lparr>reachable := reachable opp |-| {|c|}\<rparr>
            \<and> p' = p_rebuild_reachable_set adj g (p\<lparr>walls := finsert c (walls p)\<rparr>) opp')
    \<and> (c |\<notin>| units opp \<and> c |\<notin>| trenches g \<longrightarrow>
            units p' = finsert c (units p) \<and> walls p' = walls p \<and> opp' = opp
            \<and> p' = p_rebuild_reachable_set adj g (p\<lparr>units := finsert c (units p)\<rparr>) opp)"
  using assms by (auto simp: p_make_turn_def Let_def)

theorem move_resolution_order_witness:
  "units (snd (p_make_turn grid_adjacent small_game (2, 2)
        (active_player small_game) (passive_player small_game))) = {||}
   \<and> walls (fst (p_make_turn grid_adjacent small_game (2, 2)
        (active_player small_game) (passive_player small_game))) = {|(2, 2)|}
   \<and> walls (fst (p_make_turn grid_adjacent trench_game (1, 2)
        (active_player trench_game) (passive_player trench_game))) = {|(1, 2)|}
   \<and> reachable (snd (p_make_turn grid_adjacent trench_game (1, 2)
        (active_player trench_game) (passive_player trench_game))) = {|(2, 2), (2, 3), (3, 2)|}
   \<and> units (fst (p_make_turn grid_adjacent small_game (1, 2)
        (active_player small_game) (passive_player small_game))) = {|(1, 1), (1, 2)|}"
  using move_resolution_order [where adj = grid_adjacent and g = small_game and c = "(2, 2)"
      and p = "active_player small_game" and opp = "passive_player small_game",
      OF prod.collapse [symmetric]]
    move_resolution_order [where adj = grid_adjacent and g = trench_game and c = "(1, 2)"
      and p = "active_player trench_game" and opp = "passive_player trench_game",
      OF prod.collapse [symmetric]]
    move_resolution_order [where adj = grid_adjacent and g = small_game and c = "(1, 2)"
      and p = "active_player small_game" and opp = "passive_player small_game",
      OF prod.collapse [symmetric]]
  by (auto simp: small_facts trench_facts)

text \<open>
  C4. In a game reached by \<open>init()\<close> and \<open>make_turn\<close> calls, a legal move that captures
  takes exactly one cell from the opponent's units and adds exactly one cell to the
  capturer's walls, for the human's move as for a bot's; and no legal move, nor a whole
  \<open>make_turn\<close> call, lowers the sum of the four cardinalities of units and walls.
\<close>

theorem capture_moves_one_cell_and_territory_grows:
  assumes "reachable_game adj g"
  shows "(c |\<in>| reachable (active_player g) \<and> c |\<in>| units (passive_player g) \<longrightarrow>
           fcard (units (snd (p_make_turn adj g c (active_player g) (passive_player g)))) + 1
             = fcard (units (passive_player g))
           \<and> fcard (walls (fst (p_make_turn adj g c (active_player g) (passive_player g))))
             = fcard (walls (active_player g)) + 1)
    \<and> (c |\<in>| reachable (passive_player g) \<and> c |\<in>| units (active_player g) \<longrightarrow>
           fcard (units (snd (p_make_turn adj g c (passive_player g) (active_player g)))) + 1
             = fcard (units (active_player g))
           \<and> fcard (walls (fst (p_make_turn adj g c (passive_player g) (active_player g))))
             = fcard (walls (passive_player g)) + 1)
    \<and> (c |\<in>| reachable (active_player g) \<longrightarrow> territory g \<le> territory (human_move adj g c))
    \<and> (c |\<in>| reachable (passive_player g) \<longrightarrow> territory g \<le> territory (bot_move adj g c))
    \<and> territory g \<le> territory (snd (make_turn game_bot adj g pid c))"
proof -
  have ok: "game_ok g" using assms by (rule reachable_game_ok)
  then have po: "pair_ok (trenches g) (active_player g) (passive_player g)"
    and op: "pair_ok (trenches g) (passive_player g) (active_player g)"
    by (simp_all add: game_ok_def)
  have capture: "fcard (units (snd (p_make_turn adj g c p opp))) + 1 = fcard (units opp)
      \<and> fcard (walls (fst (p_make_turn adj g c p opp))) = fcard (walls p) + 1"
    if "pair_ok (trenches g) p opp" "c |\<in>| reachable p" "c |\<in>| units opp" for p opp
  proof -
    have mt: "p_make_turn adj g c p opp
        = (fst (p_make_turn adj g c p opp), snd (p_make_turn adj g c p opp))" by simp
    from pair_ok_fresh [OF that(1) that(2)] have "c |\<notin>| walls p" by simp
    with p_make_turn_capture [OF that(3) mt] fcard_remove_member [OF that(3)]
    show ?thesis by (simp add: fcard_finsert_disjoint)
  qed
  have human: "territory g \<le> territory (human_move adj g c)"
    if "c |\<in>| reachable (active_player g)"
  proof -
    obtain p' opp' where mt: "p_make_turn adj g c (active_player g) (passive_player g) = (p', opp')"
      by (cases "p_make_turn adj g c (active_player g) (passive_player g)")
    from p_make_turn_territory [OF po that mt] show ?thesis
      by (simp add: territory_def human_move_def mt)
  qed
  show ?thesis
    using capture [OF po] capture [OF op] human bot_move_territory [OF ok]
      make_turn_grows [OF ok, of game_bot adj pid c]
    by blast
qed

theorem capture_moves_one_cell_and_territory_grows_witness:
  "reachable_game grid_adjacent small_game
   \<and> (2, 2) |\<in>| reachable (active_player small_game)
   \<and> (2, 2) |\<in>| units (passive_player small_game)
   \<and> fcard (units (snd (p_make_turn grid_adjacent small_game (2, 2)
         (active_player small_game) (passive_player small_game)))) + 1
       = fcard (units (passive_player small_game))
   \<and> fcard (walls (fst (p_make_turn grid_adjacent small_game (2, 2)
         (active_player small_game) (passive_player small_game))))
       = fcard (walls (active_player small_game)) + 1
   \<and> territory small_game \<le> territory (human_move grid_adjacent small_game (2, 2))
   \<and> territory small_game
       \<le> territory (snd (make_turn first_reachable_bot grid_adjacent small_game ''a'' (2, 2)))"
  using capture_moves_one_cell_and_territory_grows
      [OF small_reachable, where c = "(2, 2)" and game_bot = first_reachable_bot
        and pid = "''a''"]
    small_reachable small_facts(2) small_facts(4)
  by simp

text \<open>
  C5. In a deathmatch game against the bot, a \<open>make_turn\<close> call that takes \<open>turns_left\<close> to
  zero and returns has raised \<open>turn_count\<close> by exactly 2, once before the bot's round (which
  runs with the count raised by one) and once after it, and has reset \<open>turns_left\<close> to the
  new count.
\<close>

theorem deathmatch_bot_round_adds_two:
  assumes dm: "is_deathmatch (preferences g)" and ab: "is_against_bot (preferences g)"
    and last: "turns_left g - 1 = 0"
    and ret: "make_turn game_bot adj g pid c = (None, g')"
  shows "turn_count (preferences g') = turn_count (preferences g) + 2
    \<and> turns_left g' = turn_count (preferences g')
    \<and> (\<exists>after_bot.
          bot_round game_bot adj (nat (turn_count (preferences g) + 1))
            (reset_turns_left (increment_turn_count ((human_move adj g c)\<lparr>turns_left := 0\<rparr>)))
            = (None, after_bot)
          \<and> turn_count (preferences after_bot) = turn_count (preferences g) + 1
          \<and> g' = check_defeat (reset_turns_left (increment_turn_count after_bot)))"
proof -
  have legal: "make_turn game_bot adj g pid c = p_decrement_turns game_bot adj (human_move adj g c)"
  proof (rule make_turn_legal)
    have "\<not> (pid \<noteq> player_id (active_player g) \<or> c |\<notin>| reachable (active_player g)
        \<or> \<not> can_win (active_player g) \<or> \<not> can_win (passive_player g))"
    proof
      assume "pid \<noteq> player_id (active_player g) \<or> c |\<notin>| reachable (active_player g)
        \<or> \<not> can_win (active_player g) \<or> \<not> can_win (passive_player g)"
      then have "make_turn game_bot adj g pid c = (Some IllegalTurnException, g)"
        by (rule make_turn_illegal)
      with ret show False by simp
    qed
    then show "pid = player_id (active_player g)" "c |\<in>| reachable (active_player g)"
      "can_win (active_player g)" "can_win (passive_player g)" by simp_all
  qed
  define h where "h = human_move adj g c"
  define g1 where "g1 = h\<lparr>turns_left := 0\<rparr>"
  define g3 where "g3 = reset_turns_left (increment_turn_count g1)"
  define r where "r = bot_round game_bot adj (nat (turn_count (preferences g) + 1)) g3"
  have ph: "preferences h = preferences g" and th: "turns_left h = turns_left g"
    by (simp_all add: h_def)
  have p3: "turn_count (preferences g3) = turn_count (preferences g) + 1"
    and dm3: "is_deathmatch (preferences g3)" and ab3: "is_against_bot (preferences g3)"
    using dm ab by (simp_all add: g3_def g1_def reset_turns_left_def increment_turn_count_def ph)
  have esc: "escalate g1 = increment_turn_count g1"
    using dm by (simp add: escalate_def g1_def ph)
  have eor: "end_of_round game_bot adj g1 =
     (case r of (Some e, g4) \<Rightarrow> (Some e, g4)
      | (None, g4) \<Rightarrow> (None, reset_turns_left (escalate g4)))"
    unfolding end_of_round_def Let_def esc r_def
    using ab3 p3 by (simp only: g3_def [symmetric] if_True)
  have pd: "p_decrement_turns game_bot adj h =
     (case end_of_round game_bot adj g1 of
        (Some e, g6) \<Rightarrow> (Some e, g6) | (None, g6) \<Rightarrow> (None, check_defeat g6))"
    unfolding p_decrement_turns_def Let_def using last
    by (simp add: g1_def th)
  obtain e4 g4 where r: "r = (e4, g4)" by (cases r)
  have e4: "e4 = None"
    using ret legal pd eor r by (cases e4) (simp_all add: h_def)
  have "preferences (snd r) = preferences g3"
    unfolding r_def by (rule bot_round_preferences)
  with r have p4: "preferences g4 = preferences g3" by simp
  then have esc4: "escalate g4 = increment_turn_count g4"
    using dm3 by (simp add: escalate_def)
  have g': "g' = check_defeat (reset_turns_left (increment_turn_count g4))"
    using ret legal pd eor r e4 esc4 by (simp add: h_def)
  have tc: "turn_count (preferences g') = turn_count (preferences g) + 2"
    and tl: "turns_left g' = turn_count (preferences g')"
    using p4 p3
    by (simp_all add: g' check_defeat_def reset_turns_left_def increment_turn_count_def)
  have "bot_round game_bot adj (nat (turn_count (preferences g) + 1))
      (reset_turns_left (increment_turn_count ((human_move adj g c)\<lparr>turns_left := 0\<rparr>)))
      = (None, g4)"
    using r e4 by (simp add: r_def g3_def g1_def h_def)
  moreover have "turn_count (preferences g4) = turn_count (preferences g) + 1"
    using p4 p3 by simp
  ultimately show ?thesis using tc tl g' by blast
qed

theorem deathmatch_bot_round_adds_two_witness:
  "is_deathmatch (preferences dm_game) \<and> is_against_bot (preferences dm_game)
   \<and> turns_left dm_game - 1 = 0
   \<and> make_turn first_reachable_bot grid_adjacent dm_game ''a'' (1, 2) = (None, dm_after)
   \<and> turn_count (preferences dm_game) = 1
   \<and> turn_count (preferences dm_after) = turn_count (preferences dm_game) + 2
   \<and> turns_left dm_after = turn_count (preferences dm_after)"
  using deathmatch_bot_round_adds_two [OF dm_facts(1) dm_facts(2) dm_facts(3) dm_turn]
    dm_facts dm_turn
  by simp

text \<open>
  C6. The trench set that \<open>init()\<close> produces is closed under the point symmetry of the
  board, for every preferences value and every random stream: the mirror of a trench is
  a trench.
\<close>

theorem trenches_point_symmetric:
  assumes "init rnd adj g = (None, g')" and "c |\<in>| trenches g'"
  shows "get_symmetric_cell (preferences g') c |\<in>| trenches g'"
  using assms by (rule init_symmetric)

theorem trenches_point_symmetric_witness:
  "init (\<lambda>k. 0) grid_adjacent trench_start = (None, trench_game)
    \<and> (2, 1) |\<in>| trenches trench_game
    \<and> get_symmetric_cell (preferences trench_game) (2, 1) = (2, 3)
    \<and> (2, 3) |\<in>| trenches trench_game"
  using trenches_point_symmetric [OF trench_init, of "(2, 1)"] trench_init
  by (simp add: trench_game_def trench_prefs_def get_symmetric_cell_def)

text \<open>
  C7 (the code departs from it). With \<open>is_double_base\<close> set and the bases on fixed rows,
  \<open>_init_players\<close> computes row 1 for the first and for the second base, so that \<open>init()\<close>
  leaves each player with a single base cell.
\<close>

theorem double_base_fixed_rows_single_cell:
  "is_double_base (preferences double_start)
   \<and> \<not> is_with_random_bases (preferences double_start)
   \<and> fst (init (\<lambda>k. 0) grid_adjacent double_start) = None
   \<and> units (active_player (snd (init (\<lambda>k. 0) grid_adjacent double_start))) = {|(1, 1)|}
   \<and> units (passive_player (snd (init (\<lambda>k. 0) grid_adjacent double_start))) = {|(3, 3)|}
   \<and> fcard (units (active_player (snd (init (\<lambda>k. 0) grid_adjacent double_start)))) = 1
   \<and> fcard (units (passive_player (snd (init (\<lambda>k. 0) grid_adjacent double_start)))) = 1"
  by code_simp

text \<open>
  C8. On a store where the game's two players and their sets exist, \<open>get_view\<close> returns;
  it leaves the \<open>Game\<close> object, every player object and every set that existed before the
  call as they were (it writes to the objects it allocates itself only), so that the game
  holds the same values; the view is the one computed on values; and a second call with
  the same player id returns the same view and leaves the game unchanged again. This holds
  in every mode, fog-of-war included.
\<close>

theorem get_view_read_only_and_repeatable:
  assumes "game_allocated s"
  shows "\<exists>view s'. get_view_in_place adj pid s = Some (view, s')
      \<and> game_at s' = game_at s
      \<and> (\<forall>r. r < next_ref s \<longrightarrow> player_at s' r = player_at s r \<and> set_at s' r = set_at s r)
      \<and> load_game s' = load_game s
      \<and> view = fst (get_view adj (load_game s) pid)
      \<and> (\<exists>s''. get_view_in_place adj pid s' = Some (view, s'') \<and> load_game s'' = load_game s)"
proof -
  from get_view_in_place_once [OF assms, of adj pid]
  obtain s' where a: "get_view_in_place adj pid s = Some (fst (get_view adj (load_game s) pid), s')"
    and u: "unchanged_below s s'"
    by blast
  have lg: "load_game s' = load_game s" using u assms by (rule unchanged_below_load_game)
  have ga': "game_allocated s'" using u assms by (rule unchanged_below_game_allocated)
  from get_view_in_place_once [OF ga', of adj pid]
  obtain s'' where b: "get_view_in_place adj pid s' = Some (fst (get_view adj (load_game s') pid), s'')"
    and u': "unchanged_below s' s''"
    by blast
  have lg': "load_game s'' = load_game s"
    using unchanged_below_load_game [OF u' ga'] lg by simp
  from u have "game_at s' = game_at s"
    and "\<forall>r. r < next_ref s \<longrightarrow> player_at s' r = player_at s r \<and> set_at s' r = set_at s r"
    by (simp_all add: unchanged_below_def)
  with a b lg lg' show ?thesis by auto
qed

theorem get_view_read_only_and_repeatable_witness:
  "game_allocated fog_store
   \<and> is_visibility_applied (o_preferences (game_at fog_store))
   \<and> get_view_in_place grid_adjacent ''a'' fog_store \<noteq> None
   \<and> fst (the (get_view_in_place grid_adjacent ''a'' fog_store))
       = fst (get_view grid_adjacent fog_game ''a'')
   \<and> pv_reachable (opponent (projr (fst (the (get_view_in_place grid_adjacent ''a'' fog_store)))))
       = {|(1, 1), (1, 2), (2, 1)|}
   \<and> load_game (snd (the (get_view_in_place grid_adjacent ''a'' fog_store))) = fog_game
   \<and> set_at (snd (the (get_view_in_place grid_adjacent ''a'' fog_store))) 7 = set_at fog_store 7"
proof -
  from get_view_read_only_and_repeatable [OF fog_allocated, of grid_adjacent "''a''"]
  obtain view s' where a: "get_view_in_place grid_adjacent ''a'' fog_store = Some (view, s')"
    and b: "\<forall>r. r < next_ref fog_store \<longrightarrow>
        player_at s' r = player_at fog_store r \<and> set_at s' r = set_at fog_store r"
    and c: "load_game s' = load_game fog_store"
    and d: "view = fst (get_view grid_adjacent (load_game fog_store) ''a'')"
    by blast
  have "(7::nat) < next_ref fog_store" by (simp add: fog_store_def)
  with b have e: "set_at s' 7 = set_at fog_store 7" by blast
  have v: "is_visibility_applied (o_preferences (game_at fog_store))"
    by (simp add: fog_store_def fog_prefs_def)
  show ?thesis
    using a c d e v fog_allocated fog_view by (simp add: fog_load)
qed

text \<open>
  C9. The frontier loop of the rebuild stops after at most one pass more than there are
  walls of the player outside the frontier. The new sources of a pass are walls of the
  player that are not in the frontier yet, so that a cell enters the frontier at most
  once, the frontier grows strictly on a pass that continues, and it stays inside the
  player's units and walls, which a pass does not change.
\<close>

theorem frontier_loop_terminates:
  "spread_fuel (Suc (fcard (walls p |-| sources))) adj g opp sources p
      = Some (spread adj g opp sources p)
   \<and> snd (scan adj g opp sources p) |\<inter>| sources = {||}
   \<and> snd (scan adj g opp sources p) |\<subseteq>| walls p
   \<and> units (fst (scan adj g opp sources p)) = units p
   \<and> walls (fst (scan adj g opp sources p)) = walls p
   \<and> (snd (scan adj g opp sources p) \<noteq> {||}
        \<longrightarrow> sources |\<subset>| sources |\<union>| snd (scan adj g opp sources p))
   \<and> (sources |\<subseteq>| units p |\<union>| walls p
        \<longrightarrow> sources |\<union>| snd (scan adj g opp sources p) |\<subseteq>| units p |\<union>| walls p)"
proof -
  have "snd (scan adj g opp sources p) |\<subseteq>| walls p |-| sources"
    by (rule scan_new_sources)
  then have "snd (scan adj g opp sources p) |\<inter>| sources = {||}"
    and "snd (scan adj g opp sources p) |\<subseteq>| walls p"
    and "snd (scan adj g opp sources p) \<noteq> {||}
        \<longrightarrow> sources |\<subset>| sources |\<union>| snd (scan adj g opp sources p)"
    and "sources |\<subseteq>| units p |\<union>| walls p
        \<longrightarrow> sources |\<union>| snd (scan adj g opp sources p) |\<subseteq>| units p |\<union>| walls p"
    by auto
  moreover have "spread_fuel (Suc (fcard (walls p |-| sources))) adj g opp sources p
      = Some (spread adj g opp sources p)"
    by (rule spread_fuel_enough) simp
  ultimately show ?thesis by (simp add: scan_units scan_walls)
qed

theorem frontier_loop_terminates_witness:
  "snd (scan grid_adjacent small_game (passive_player small_game) {|(1, 1)|} wall_player)
      = {|(1, 2)|}
   \<and> {|(1, 1)|} |\<subset>| {|(1, 1)|} |\<union>|
        snd (scan grid_adjacent small_game (passive_player small_game) {|(1, 1)|} wall_player)
   \<and> {|(1, 1)|} |\<union>|
        snd (scan grid_adjacent small_game (passive_player small_game) {|(1, 1)|} wall_player)
      |\<subseteq>| units wall_player |\<union>| walls wall_player
   \<and> spread_fuel 2 grid_adjacent small_game (passive_player small_game) {|(1, 1)|} wall_player
      = Some (spread grid_adjacent small_game (passive_player small_game) {|(1, 1)|} wall_player)"
proof -
  have w: "units wall_player = {|(1, 1)|}" "walls wall_player = {|(1, 2)|}"
    by (simp_all add: wall_player_def new_player_def)
  have f: "Suc (fcard (walls wall_player |-| {|(1, 1)|})) = 2"
    unfolding w by code_simp
  show ?thesis
    using frontier_loop_terminates [where p = wall_player and sources = "{|(1, 1)|}"
        and adj = grid_adjacent and g = small_game and opp = "passive_player small_game"]
      wall_scan
    unfolding f by (simp add: w)
qed

text \<open>
  C10. In every game state reached by \<open>init()\<close> and then any sequence of \<open>make_turn\<close>
  calls that return, no unit of either player stands on a trench.
\<close>

theorem units_never_on_trenches:
  assumes "reachable_game adj g"
  shows "units (active_player g) |\<inter>| trenches g = {||}
    \<and> units (passive_player g) |\<inter>| trenches g = {||}"
  using reachable_game_ok [OF assms] by (simp add: game_ok_def pair_ok_def)

theorem units_never_on_trenches_witness:
  "reachable_game grid_adjacent trench_game
    \<and> trenches trench_game = {|(1, 2), (1, 3), (2, 1), (2, 2), (2, 3), (3, 1), (3, 2)|}
    \<and> units (active_player trench_game) |\<inter>| trenches trench_game = {||}
    \<and> units (passive_player trench_game) |\<inter>| trenches trench_game = {||}"
  using units_never_on_trenches [OF trench_reachable] trench_reachable
  by (simp add: trench_game_def)

end
